theory Spec2Isabelle
  imports Main "HOL-Library.Sublist" "HOL-Library.AList"
begin

section \<open>Model of the two browser bots\<close>

text \<open>
  The two scripts (\<^verbatim>\<open>Job_Bot_Nvidia_main.py\<close>, \<^verbatim>\<open>bot_Job_IAI_main.py\<close>) drive a live
  browser through Selenium. The browser is the environment: each call into it either
  returns a value or raises. A raising call is a value \<open>Inl e\<close> of the sum type
  \<open>'a result\<close>, and every \<^verbatim>\<open>try/except\<close> of the source is a case distinction on it.
  Whatever the browser answers is a parameter of the model, so a theorem quantified over
  the parameter holds for every page the code can meet.
\<close>

subsection \<open>Exceptions\<close>

datatype exn =
    TimeoutException
  | NoSuchElementException
  | ElementClickInterceptedException
  | ElementNotInteractableException
  | OtherException

type_synonym 'a result = "exn + 'a"

subsection \<open>Strings\<close>

text \<open>Python's \<^verbatim>\<open>needle in haystack\<close> on strings.\<close>

fun contains :: "string \<Rightarrow> string \<Rightarrow> bool" where
  "contains needle [] = (needle = [])"
| "contains needle (c # cs) =
     (take (length needle) (c # cs) = needle \<or> contains needle cs)"

subsection \<open>\<^verbatim>\<open>robust_click\<close> (Nvidia bot, lines 111-128)\<close>

text \<open>
  The element is given by what each of the four driver calls made on it does:
  \<^verbatim>\<open>element.click()\<close>, the two \<^verbatim>\<open>execute_script\<close> calls of the second stage
  (scroll into the centre, then the JavaScript click) and the \<^verbatim>\<open>ActionChains\<close>
  sequence. Every stage is wrapped in \<^verbatim>\<open>except Exception\<close>. The function
  returns its boolean together with the calls it made, in order.
\<close>

record element =
  native_click :: "unit result"
  scroll_into_view :: "unit result"
  js_click :: "unit result"
  action_chain :: "unit result"

datatype call = Native_click | Scroll_into_view | Js_click | Action_chain

definition third_stage :: "element \<Rightarrow> call list \<Rightarrow> bool \<times> call list" where
  "third_stage el calls =
     (case action_chain el of
        Inr _ \<Rightarrow> (True, calls @ [Action_chain])
      | Inl _ \<Rightarrow> (False, calls @ [Action_chain]))"

definition robust_click :: "element \<Rightarrow> bool \<times> call list" where
  "robust_click el =
     (case native_click el of
        Inr _ \<Rightarrow> (True, [Native_click])
      | Inl _ \<Rightarrow>
          (case scroll_into_view el of
             Inl _ \<Rightarrow> third_stage el [Native_click, Scroll_into_view]
           | Inr _ \<Rightarrow>
               (case js_click el of
                  Inr _ \<Rightarrow> (True, [Native_click, Scroll_into_view, Js_click])
                | Inl _ \<Rightarrow> third_stage el [Native_click, Scroll_into_view, Js_click])))"

text \<open>Whether a stage, run on its own, succeeds.\<close>

definition returns :: "'a result \<Rightarrow> bool" where
  "returns r = (case r of Inr _ \<Rightarrow> True | Inl _ \<Rightarrow> False)"

definition stage1 :: "element \<Rightarrow> bool" where
  "stage1 el = returns (native_click el)"

definition stage2 :: "element \<Rightarrow> bool" where
  "stage2 el = (returns (scroll_into_view el) \<and> returns (js_click el))"

definition stage3 :: "element \<Rightarrow> bool" where
  "stage3 el = returns (action_chain el)"

subsection \<open>\<^verbatim>\<open>safe_click\<close> (Nvidia bot, lines 130-135)\<close>

text \<open>
  The argument is the outcome of
  \<^verbatim>\<open>WebDriverWait(driver, timeout).until(EC.element_to_be_clickable(locator))\<close>: the
  element, or the exception the wait raised. \<open>safe_click_try\<close> is the body of the
  \<^verbatim>\<open>try\<close>, \<open>safe_click\<close> adds the handler \<^verbatim>\<open>except Exception: return False\<close>.
\<close>

definition safe_click_try :: "element result \<Rightarrow> bool result" where
  "safe_click_try w =
     (case w of Inl e \<Rightarrow> Inl e | Inr el \<Rightarrow> Inr (fst (robust_click el)))"

definition safe_click :: "element result \<Rightarrow> bool result" where
  "safe_click w =
     (case safe_click_try w of Inl e \<Rightarrow> Inr False | Inr b \<Rightarrow> Inr b)"

subsection \<open>Ordered locator lists\<close>

text \<open>
  \<^verbatim>\<open>any(safe_click(driver, loc, timeout=8) for loc in apply_locators)\<close>
  (\<^verbatim>\<open>apply_flow_for_current_job\<close>, lines 450-457). The list holds, for each locator in
  priority order, what the wait for it yields when it is tried. \<^verbatim>\<open>any\<close> over a
  generator stops at the first true value. The result is the boolean and the number of
  locators tried.
\<close>

fun any_safe_click :: "element result list \<Rightarrow> bool \<times> nat" where
  "any_safe_click [] = (False, 0)"
| "any_safe_click (w # ws) =
     (case safe_click w of
        Inr True \<Rightarrow> (True, 1)
      | _ \<Rightarrow> (let (b, n) = any_safe_click ws in (b, Suc n)))"

text \<open>
  The sign-in loop of \<^verbatim>\<open>part1_login\<close> (lines 239-250). For each locator the wait for
  presence yields an element (here: its identity and what \<^verbatim>\<open>is_displayed()\<close> does) or
  raises. Only \<^verbatim>\<open>TimeoutException\<close> is caught, from the wait or from
  \<^verbatim>\<open>is_displayed()\<close>; any other exception leaves the loop and the function. After the
  loop a missing element raises
  \<^verbatim>\<open>NoSuchElementException\<close>. The result is paired with the number of locators tried.
\<close>

type_synonym located = "(nat \<times> bool result) result"

fun sign_in_loop :: "located list \<Rightarrow> nat option result \<times> nat" where
  "sign_in_loop [] = (Inr None, 0)"
| "sign_in_loop (w # ws) =
     (case w of
        Inl TimeoutException \<Rightarrow> (let (r, n) = sign_in_loop ws in (r, Suc n))
      | Inl e \<Rightarrow> (Inl e, 1)
      | Inr (el, shown) \<Rightarrow>
          (case shown of
             Inl TimeoutException \<Rightarrow> (let (r, n) = sign_in_loop ws in (r, Suc n))
           | Inl e \<Rightarrow> (Inl e, 1)
           | Inr True \<Rightarrow> (Inr (Some el), 1)
           | Inr False \<Rightarrow> (let (r, n) = sign_in_loop ws in (r, Suc n))))"

definition find_sign_in :: "located list \<Rightarrow> nat result \<times> nat" where
  "find_sign_in ws =
     (case sign_in_loop ws of
        (Inl e, n) \<Rightarrow> (Inl e, n)
      | (Inr None, n) \<Rightarrow> (Inl NoSuchElementException, n)
      | (Inr (Some el), n) \<Rightarrow> (Inr el, n))"

text \<open>
  Reading a locator list. \<open>clicks\<close>: the wait for the locator yields an element and one of
  the three click stages succeeds on it. \<open>quiet\<close>: the sign-in loop passes over the locator
  (a timeout, or the element is not displayed). \<open>sign_in_outcome\<close>: what a
  locator that is not passed over makes of the loop.
\<close>

definition clicks :: "element result \<Rightarrow> bool" where
  "clicks w = (case w of Inl _ \<Rightarrow> False | Inr el \<Rightarrow> stage1 el \<or> stage2 el \<or> stage3 el)"

definition quiet :: "located \<Rightarrow> bool" where
  "quiet w =
     (case w of
        Inl e \<Rightarrow> e = TimeoutException
      | Inr (el, shown) \<Rightarrow> shown = Inr False \<or> shown = Inl TimeoutException)"

definition sign_in_outcome :: "located \<Rightarrow> nat result" where
  "sign_in_outcome w =
     (case w of
        Inl e \<Rightarrow> Inl e
      | Inr (el, shown) \<Rightarrow> (case shown of Inl e \<Rightarrow> Inl e | Inr _ \<Rightarrow> Inr el))"

text \<open>The elements of a list up to and including the first one that satisfies \<open>P\<close>.\<close>

fun until_first :: "('a \<Rightarrow> bool) \<Rightarrow> 'a list \<Rightarrow> 'a list" where
  "until_first P [] = []"
| "until_first P (x # xs) = (if P x then [x] else x # until_first P xs)"

subsection \<open>\<^verbatim>\<open>switch_to_frame_containing\<close> (Nvidia bot, lines 80-109)\<close>

text \<open>
  A document is a tree: whether the locator becomes present in it within the timeout,
  and its \<^verbatim>\<open>iframe\<close> elements in document order. The driver's state is the browsing
  context it is switched to, a path of frame indices from the top document (\<open>[]\<close> is
  \<^verbatim>\<open>default_content\<close>), and the commands it has received. A wait is logged with the
  context it ran in. The page does not change during the search, and switching to a
  frame that \<^verbatim>\<open>find_elements\<close> has just returned succeeds.
\<close>

datatype frame = Frame (has_target: bool) (iframes: "frame list")

datatype cmd = Default_content | Switch_frame nat | Wait_presence "nat list"

record driver =
  ctx :: "nat list"
  cmds :: "cmd list"

fun frame_at :: "frame \<Rightarrow> nat list \<Rightarrow> frame option" where
  "frame_at f [] = Some f"
| "frame_at f (i # p) =
     (if i < length (iframes f) then frame_at (iframes f ! i) p else None)"

definition target_at :: "frame \<Rightarrow> nat list \<Rightarrow> bool" where
  "target_at page p = (case frame_at page p of Some f \<Rightarrow> has_target f | None \<Rightarrow> False)"

definition default_content :: "driver \<Rightarrow> driver" where
  "default_content d = d\<lparr>ctx := [], cmds := cmds d @ [Default_content]\<rparr>"

definition switch_frame :: "nat \<Rightarrow> driver \<Rightarrow> driver" where
  "switch_frame i d = d\<lparr>ctx := ctx d @ [i], cmds := cmds d @ [Switch_frame i]\<rparr>"

text \<open>
  \<^verbatim>\<open>WebDriverWait(driver, timeout).until(EC.presence_of_element_located(locator))\<close>:
  \<open>True\<close> when it returns, \<open>False\<close> when it raises \<^verbatim>\<open>TimeoutException\<close>.
\<close>

definition wait_presence :: "frame \<Rightarrow> driver \<Rightarrow> bool \<times> driver" where
  "wait_presence page d =
     (target_at page (ctx d), d\<lparr>cmds := cmds d @ [Wait_presence (ctx d)]\<rparr>)"

text \<open>\<^verbatim>\<open>driver.find_elements(By.TAG_NAME, "iframe")\<close> in the current context.\<close>

definition find_iframes :: "frame \<Rightarrow> driver \<Rightarrow> nat list" where
  "find_iframes page d =
     (case frame_at page (ctx d) of
        Some f \<Rightarrow> [0..<length (iframes f)]
      | None \<Rightarrow> [])"

text \<open>The inner loop \<^verbatim>\<open>for f2 in ...\<close> (lines 98-106) and the outer loop (lines 91-106).\<close>

fun loop_f2 :: "frame \<Rightarrow> nat \<Rightarrow> nat list \<Rightarrow> driver \<Rightarrow> bool \<times> driver" where
  "loop_f2 page f1 [] d = (False, d)"
| "loop_f2 page f1 (f2 # rest) d =
     (let d1 = switch_frame f2 (switch_frame f1 (default_content d));
          (found, d2) = wait_presence page d1
      in if found then (True, d2) else loop_f2 page f1 rest d2)"

fun loop_f1 :: "frame \<Rightarrow> nat list \<Rightarrow> driver \<Rightarrow> bool \<times> driver" where
  "loop_f1 page [] d = (False, d)"
| "loop_f1 page (f1 # rest) d =
     (let d1 = switch_frame f1 (default_content d);
          (found, d2) = wait_presence page d1
      in if found then (True, d2)
         else (let (found2, d3) = loop_f2 page f1 (find_iframes page d2) d2
               in if found2 then (True, d3) else loop_f1 page rest d3))"

definition switch_to_frame_containing :: "frame \<Rightarrow> driver \<Rightarrow> unit result \<times> driver" where
  "switch_to_frame_containing page d0 =
     (let d = default_content d0;
          (found, d1) = wait_presence page d
      in if found then (Inr (), d1)
         else (let (found1, d2) = loop_f1 page (find_iframes page d1) d1
               in if found1 then (Inr (), d2)
                  else (Inl NoSuchElementException, default_content d2)))"

text \<open>
  Reading the log: the contexts in which a wait ran, in order; and the commands one
  attempt on the context \<open>p\<close> consists of.
\<close>

fun probes :: "cmd list \<Rightarrow> nat list list" where
  "probes [] = []"
| "probes (Wait_presence p # cs) = p # probes cs"
| "probes (c # cs) = probes cs"

definition attempt :: "nat list \<Rightarrow> cmd list" where
  "attempt p = Default_content # map Switch_frame p @ [Wait_presence p]"

text \<open>
  Two orders on the contexts of nesting depth at most 2. \<open>preorder2\<close>: the top
  document, then each top-level frame followed at once by its own child frames.
  \<open>breadth_first2\<close> follows the words of the specification ("breadth-first at each
  level"): the top document, then all frames of depth 1, then all frames of depth 2.
\<close>

definition children :: "frame \<Rightarrow> nat list \<Rightarrow> nat list" where
  "children page p =
     (case frame_at page p of Some f \<Rightarrow> [0..<length (iframes f)] | None \<Rightarrow> [])"

definition preorder2 :: "frame \<Rightarrow> nat list list" where
  "preorder2 page =
     [] # concat (map (\<lambda>i. [i] # map (\<lambda>j. [i, j]) (children page [i])) (children page []))"

definition breadth_first2 :: "frame \<Rightarrow> nat list list" where
  "breadth_first2 page =
     [] # map (\<lambda>i. [i]) (children page [])
        @ concat (map (\<lambda>i. map (\<lambda>j. [i, j]) (children page [i])) (children page []))"

text \<open>
  The driver after one attempt on each context of a list, in order; and the contexts a
  top-level frame contributes to \<open>preorder2\<close>.
\<close>

definition after_attempts :: "nat list list \<Rightarrow> driver \<Rightarrow> driver" where
  "after_attempts ps d =
     d\<lparr>ctx := (if ps = [] then ctx d else last ps), cmds := cmds d @ concat (map attempt ps)\<rparr>"

definition under :: "frame \<Rightarrow> nat \<Rightarrow> nat list list" where
  "under page i = [i] # map (\<lambda>j. [i, j]) (children page [i])"

subsection \<open>\<^verbatim>\<open>get_pagination_state\<close> (Nvidia bot, lines 833-864)\<close>

text \<open>
  What the page shows when the snapshot is taken: the pagination \<^verbatim>\<open>nav\<close> elements (for
  each, the buttons marked \<^verbatim>\<open>aria-current='page'\<close>), the text of the "1 - 20 of N"
  label, and the job title links (for each, \<^verbatim>\<open>is_displayed()\<close> and its \<^verbatim>\<open>href\<close>). Each
  of the three lookups sits in its own \<^verbatim>\<open>try ... except Exception: pass\<close>, so a
  lookup that raises leaves its signal at \<^verbatim>\<open>""\<close>. A character of the model is a
  code point below 256; \<^verbatim>\<open>str.strip()\<close> removes at both ends the characters for which
  \<^verbatim>\<open>str.isspace()\<close> holds, which below 256 are the code points 9 to 13, 28 to 32, 133
  and 160. Text with code points from 256 on is outside the model.
\<close>

definition is_space :: "char \<Rightarrow> bool" where
  "is_space c = (of_char c \<in> {9, 10, 11, 12, 13, 28, 29, 30, 31, 32, 133, 160 :: nat})"

definition strip :: "string \<Rightarrow> string" where
  "strip s = rev (dropWhile is_space (rev (dropWhile is_space s)))"

record button =
  aria_label :: "string option result"
  btn_text :: "string result"

record page_obs =
  navs :: "button list result list result"
  out_of_text :: "string result"
  job_links :: "(bool result \<times> string option result) list result"

definition stripped_text :: "button \<Rightarrow> string" where
  "stripped_text b = (case btn_text b of Inl _ \<Rightarrow> [] | Inr t \<Rightarrow> strip t)"

definition current_page_label :: "page_obs \<Rightarrow> string" where
  "current_page_label pg =
     (case navs pg of
        Inl _ \<Rightarrow> []
      | Inr [] \<Rightarrow> []
      | Inr (n # ns) \<Rightarrow>
          (case last (n # ns) of
             Inl _ \<Rightarrow> []
           | Inr [] \<Rightarrow> []
           | Inr (b # _) \<Rightarrow>
               (case aria_label b of
                  Inl _ \<Rightarrow> []
                | Inr None \<Rightarrow> stripped_text b
                | Inr (Some s) \<Rightarrow> (if s \<noteq> [] then s else stripped_text b))))"

definition outof_text :: "page_obs \<Rightarrow> string" where
  "outof_text pg = (case out_of_text pg of Inl _ \<Rightarrow> [] | Inr t \<Rightarrow> strip t)"

text \<open>\<^verbatim>\<open>[a for a in links if a.is_displayed()]\<close>: the first call that raises ends it.\<close>

fun displayed :: "(bool result \<times> 'a) list \<Rightarrow> 'a list result" where
  "displayed [] = Inr []"
| "displayed ((shown, a) # rest) =
     (case shown of
        Inl e \<Rightarrow> Inl e
      | Inr b \<Rightarrow>
          (case displayed rest of
             Inl e \<Rightarrow> Inl e
           | Inr as \<Rightarrow> Inr (if b then a # as else as)))"

definition first_job_href :: "page_obs \<Rightarrow> string" where
  "first_job_href pg =
     (case job_links pg of
        Inl _ \<Rightarrow> []
      | Inr links \<Rightarrow>
          (case displayed links of
             Inl _ \<Rightarrow> []
           | Inr [] \<Rightarrow> []
           | Inr (h # _) \<Rightarrow>
               (case h of Inl _ \<Rightarrow> [] | Inr None \<Rightarrow> [] | Inr (Some s) \<Rightarrow> s)))"

type_synonym pagination_state = "string \<times> string \<times> string"

definition get_pagination_state :: "page_obs \<Rightarrow> pagination_state" where
  "get_pagination_state pg = (current_page_label pg, outof_text pg, first_job_href pg)"

subsection \<open>The wait of \<^verbatim>\<open>go_to_next_results_page_if_any\<close> (Nvidia bot, lines 948-968)\<close>

text \<open>
  The three tests of the loop body, in the source's order. A Python string is true when
  it is not empty.
\<close>

definition state_changed :: "pagination_state \<Rightarrow> pagination_state \<Rightarrow> bool" where
  "state_changed before_state after_state =
     (case (before_state, after_state) of
        ((b0, b1, b2), (a0, a1, a2)) \<Rightarrow>
          (if b0 \<noteq> [] \<and> a0 \<noteq> [] \<and> a0 \<noteq> b0 then True
           else if b1 \<noteq> [] \<and> a1 \<noteq> [] \<and> a1 \<noteq> b1 then True
           else if b2 \<noteq> [] \<and> a2 \<noteq> [] \<and> a2 \<noteq> b2 then True
           else False))"

text \<open>
  Time is the reading of \<^verbatim>\<open>time.time()\<close> in milliseconds: the budget of 20 s is
  20000, \<^verbatim>\<open>time.sleep(0.6)\<close> advances the clock by 600. The environment answers the
  \<open>k\<close>-th poll with the page observed and with the time the poll took beyond the
  sleep (the driver calls of \<^verbatim>\<open>get_pagination_state\<close>). The result is the boolean, the
  clock when the function returns and the number of polls made.
\<close>

function next_page_wait ::
  "int \<Rightarrow> int \<Rightarrow> pagination_state \<Rightarrow> (nat \<Rightarrow> nat \<times> page_obs) \<Rightarrow> nat \<Rightarrow> bool \<times> int \<times> nat" where
  "next_page_wait start now before_state env k =
     (if now - start < 20000 then
        (let (cost, pg) = env k;
             now' = now + 600 + int cost;
             after_state = get_pagination_state pg
         in if state_changed before_state after_state then (True, now', Suc k)
            else next_page_wait start now' before_state env (Suc k))
      else (False, now, k))"
  by pat_completeness auto
termination
  by (relation "measure (\<lambda>(start, now, before_state, env, k). nat (start + 20000 - now))")
     auto

declare next_page_wait.simps [simp del]

text \<open>The clock at the \<open>k\<close>-th test of the loop condition, when no earlier poll returned.\<close>

fun test_time :: "(nat \<Rightarrow> nat \<times> 'a) \<Rightarrow> int \<Rightarrow> nat \<Rightarrow> int" where
  "test_time env start 0 = start"
| "test_time env start (Suc k) = test_time env start k + 600 + int (fst (env k))"

text \<open>The three signals of a snapshot as a list.\<close>

definition signals :: "pagination_state \<Rightarrow> string list" where
  "signals s = (case s of (s0, s1, s2) \<Rightarrow> [s0, s1, s2])"

subsection \<open>\<^verbatim>\<open>_wait_for_thank_you_redirect\<close> (IAI bot, lines 603-632)\<close>

definition THANK_YOU_PATH :: string where
  "THANK_YOU_PATH = ''/thank-you/''"

text \<open>
  One poll reads \<^verbatim>\<open>driver.current_url\<close>, then \<^verbatim>\<open>driver.window_handles\<close> and, for each
  handle, the URL after switching to it (an exception there is passed over). An
  exception of the first two lands in the outer handler, which sleeps like the normal
  path. \<^verbatim>\<open>url or ""\<close> turns \<^verbatim>\<open>None\<close> into the empty string.
\<close>

record tabs_obs =
  cur_url :: "string option result"
  handles :: "string option result list result"

definition or_empty :: "string option \<Rightarrow> string" where
  "or_empty u = (case u of None \<Rightarrow> [] | Some s \<Rightarrow> s)"

definition on_thank_you :: "string option result \<Rightarrow> bool" where
  "on_thank_you r =
     (case r of Inl _ \<Rightarrow> False | Inr u \<Rightarrow> contains THANK_YOU_PATH (or_empty u))"

definition thank_you_found :: "tabs_obs \<Rightarrow> bool" where
  "thank_you_found ob =
     (case cur_url ob of
        Inl _ \<Rightarrow> False
      | Inr u \<Rightarrow>
          (if contains THANK_YOU_PATH (or_empty u) then True
           else (case handles ob of
                   Inl _ \<Rightarrow> False
                 | Inr hs \<Rightarrow> list_ex on_thank_you hs)))"

text \<open>
  The \<^verbatim>\<open>while\<close> loop (lines 606-625). \<open>max_wait\<close> is in seconds, the clock in
  milliseconds; \<^verbatim>\<open>time.sleep(1)\<close> advances it by 1000. The environment answers the
  \<open>k\<close>-th poll with the tabs observed and the time the driver calls of the poll took.
  The result is whether the loop returned \<open>True\<close>, the clock when the loop is left and
  the number of polls.
\<close>

function thank_you_loop ::
  "int \<Rightarrow> int \<Rightarrow> int \<Rightarrow> (nat \<Rightarrow> nat \<times> tabs_obs) \<Rightarrow> nat \<Rightarrow> bool \<times> int \<times> nat" where
  "thank_you_loop max_wait start now env k =
     (if now - start < 1000 * max_wait then
        (let (cost, ob) = env k
         in if thank_you_found ob then (True, now + int cost, Suc k)
            else thank_you_loop max_wait start (now + int cost + 1000) env (Suc k))
      else (False, now, k))"
  by pat_completeness auto
termination
  by (relation "measure (\<lambda>(max_wait, start, now, env, k). nat (start + 1000 * max_wait - now))")
     auto

declare thank_you_loop.simps [simp del]

text \<open>
  After the loop (lines 626-632) the function goes back to the list tab: when
  \<^verbatim>\<open>self.main_handle\<close> is set (not \<^verbatim>\<open>None\<close>, not empty) it reads
  \<^verbatim>\<open>driver.window_handles\<close>, outside any \<^verbatim>\<open>try\<close>, so an exception of that call leaves
  the function; when the handle is among them it switches to it, inside
  \<^verbatim>\<open>try ... except Exception: pass\<close>. Then it returns \<open>False\<close>. The environment gives
  the handles (or the exception), what the switch does, and the time these calls take.
\<close>

record back_obs =
  handles_then :: "string list result"
  switch_main :: "unit result"
  back_cost :: nat

text \<open>
  The whole function, started at clock \<open>start\<close>. The result is what it returns or
  raises, the clock at that moment, the number of polls, and whether it ended by
  switching the driver to the list tab.
\<close>

definition wait_for_thank_you_redirect ::
  "string option \<Rightarrow> int \<Rightarrow> int \<Rightarrow> (nat \<Rightarrow> nat \<times> tabs_obs) \<Rightarrow> back_obs
     \<Rightarrow> bool result \<times> int \<times> nat \<times> bool" where
  "wait_for_thank_you_redirect main_handle max_wait start env ret =
     (case thank_you_loop max_wait start start env 0 of
        (found, t, n) \<Rightarrow>
          (if found then (Inr True, t, n, False)
           else if or_empty main_handle = [] then (Inr False, t, n, False)
           else (case handles_then ret of
                   Inl e \<Rightarrow> (Inl e, t + int (back_cost ret), n, False)
                 | Inr hs \<Rightarrow>
                     (if or_empty main_handle \<in> set hs
                      then (Inr False, t + int (back_cost ret), n, returns (switch_main ret))
                      else (Inr False, t + int (back_cost ret), n, False)))))"

fun test_time_iai :: "(nat \<Rightarrow> nat \<times> 'a) \<Rightarrow> int \<Rightarrow> nat \<Rightarrow> int" where
  "test_time_iai env start 0 = start"
| "test_time_iai env start (Suc k) = test_time_iai env start k + 1000 + int (fst (env k))"

subsection \<open>\<^verbatim>\<open>safe_find\<close> (IAI bot, lines 124-128)\<close>

text \<open>The argument is the outcome of the wait; only \<^verbatim>\<open>TimeoutException\<close> is caught.\<close>

definition safe_find :: "'a result \<Rightarrow> 'a option result" where
  "safe_find w =
     (case w of
        Inr el \<Rightarrow> Inr (Some el)
      | Inl TimeoutException \<Rightarrow> Inr None
      | Inl e \<Rightarrow> Inl e)"

subsection \<open>\<^verbatim>\<open>_recaptcha_visible\<close> (IAI bot, lines 634-649)\<close>

text \<open>
  The page of the current tab: its URL, and how many elements each of the two
  \<^verbatim>\<open>find_elements\<close> calls returns. The whole body is inside
  \<^verbatim>\<open>try ... except Exception: return False\<close>.
\<close>

record captcha_obs =
  page_url :: "string option result"
  recaptcha_iframes :: "nat result"
  recaptcha_boxes :: "nat result"

definition recaptcha_visible :: "captcha_obs \<Rightarrow> bool" where
  "recaptcha_visible pg =
     (case page_url pg of
        Inl _ \<Rightarrow> False
      | Inr u \<Rightarrow>
          (if contains THANK_YOU_PATH (or_empty u) then False
           else (case recaptcha_iframes pg of
                   Inl _ \<Rightarrow> False
                 | Inr n \<Rightarrow>
                     (if n > 0 then True
                      else (case recaptcha_boxes pg of
                              Inl _ \<Rightarrow> False
                            | Inr m \<Rightarrow> m > 0)))))"

subsection \<open>\<^verbatim>\<open>_submit_with_captcha_and_wait_thank_you\<close> (IAI bot, lines 527-601)\<close>

text \<open>
  The environment of one submission: the outcome of the wait for the submit button
  (the element with what its clicks do), of the wait for it to become clickable, of
  \<^verbatim>\<open>_is_button_disabled\<close>; the page seen by the first call of
  \<^verbatim>\<open>_recaptcha_visible\<close> (line 552) and by the second (line 586); and for each of the
  waits for the redirect the clock when it starts, what its polls observe and what the
  driver answers after its loop; \<open>main_tab\<close> is \<^verbatim>\<open>self.main_handle\<close>. The function
  returns what it returns or raises, with the operator pauses (\<^verbatim>\<open>input()\<close>) and the
  forced enabling of the button that happened before, in order.
\<close>

datatype event = Manual_pause | Enable_button | Click_pause | Captcha_pause

record submit_env =
  submit_btn :: "element result"
  clickable :: "unit result"
  button_disabled :: "bool result"
  page_before_click :: captcha_obs
  page_after_wait :: captcha_obs
  main_tab :: "string option"
  manual_start :: int
  manual_polls :: "nat \<Rightarrow> nat \<times> tabs_obs"
  manual_back :: back_obs
  first_start :: int
  first_polls :: "nat \<Rightarrow> nat \<times> tabs_obs"
  first_back :: back_obs
  second_start :: int
  second_polls :: "nat \<Rightarrow> nat \<times> tabs_obs"
  second_back :: back_obs

text \<open>Lines 566-577: the click, its JavaScript fallback and the pause when both fail.\<close>

definition submit_click :: "element \<Rightarrow> event list" where
  "submit_click b =
     (case native_click b of
        Inr _ \<Rightarrow> []
      | Inl e \<Rightarrow>
          (if e = ElementClickInterceptedException \<or> e = ElementNotInteractableException
           then (case js_click b of Inr _ \<Rightarrow> [] | Inl _ \<Rightarrow> [Click_pause])
           else [Click_pause]))"

text \<open>Lines 579-601: after the click.\<close>

definition wait_after_click :: "submit_env \<Rightarrow> int \<Rightarrow> bool result \<times> event list" where
  "wait_after_click E wait_total =
     (let initial_wait = min 12 wait_total
      in case fst (wait_for_thank_you_redirect (main_tab E) initial_wait
                     (first_start E) (first_polls E) (first_back E)) of
           Inl e \<Rightarrow> (Inl e, [])
         | Inr True \<Rightarrow> (Inr True, [])
         | Inr False \<Rightarrow>
             (let pause = (if recaptcha_visible (page_after_wait E) then [Captcha_pause] else []);
                  remaining = max 0 (wait_total - initial_wait)
              in (fst (wait_for_thank_you_redirect (main_tab E) remaining
                         (second_start E) (second_polls E) (second_back E)), pause)))"

definition submit_with_captcha_and_wait_thank_you ::
  "submit_env \<Rightarrow> int \<Rightarrow> bool result \<times> event list" where
  "submit_with_captcha_and_wait_thank_you E wait_total =
     (case safe_find (submit_btn E) of
        Inl e \<Rightarrow> (Inl e, [])
      | Inr None \<Rightarrow>
          (fst (wait_for_thank_you_redirect (main_tab E) wait_total
                  (manual_start E) (manual_polls E) (manual_back E)), [Manual_pause])
      | Inr (Some b) \<Rightarrow>
          (case clickable E of
             Inl OtherException \<Rightarrow> (Inl OtherException, [])
           | Inl NoSuchElementException \<Rightarrow> (Inl NoSuchElementException, [])
           | Inl ElementClickInterceptedException \<Rightarrow> (Inl ElementClickInterceptedException, [])
           | Inl ElementNotInteractableException \<Rightarrow> (Inl ElementNotInteractableException, [])
           | _ \<Rightarrow>
               (case button_disabled E of
                  Inl e \<Rightarrow> (Inl e, [])
                | Inr disabled \<Rightarrow>
                    (let enable = (if disabled \<and> \<not> recaptcha_visible (page_before_click E)
                                   then [Enable_button] else []);
                         (success, evs) = wait_after_click E wait_total
                     in (success, enable @ submit_click b @ evs)))))"

subsection \<open>\<^verbatim>\<open>compute_next_list_url\<close> (IAI bot, lines 178-210)\<close>

definition BASE_LIST_URL :: string where
  "BASE_LIST_URL = ''https://jobs.iai.co.il/jobs/?pr=41''"

text \<open>
  The functions of Python's \<^verbatim>\<open>urllib.parse\<close> and \<^verbatim>\<open>int\<close> belong to the standard
  library, not to the repository: they are a parameter. A dictionary is an association
  list in insertion order. \<^verbatim>\<open>urlunparse\<close> receives its six components as a record.
\<close>

record parse_result =
  scheme :: string
  netloc :: string
  path :: string
  params :: string
  query :: string
  fragment :: string

record urllib =
  urlparse :: "string \<Rightarrow> parse_result result"
  parse_qs :: "string \<Rightarrow> (string \<times> string list) list result"
  py_int :: "string \<Rightarrow> int result"
  urlencode :: "(string \<times> string) list \<Rightarrow> string result"
  urlunparse :: "parse_result \<Rightarrow> string result"

text \<open>\<^verbatim>\<open>str(n)\<close> for an integer.\<close>

fun digits :: "nat \<Rightarrow> string" where
  "digits n = (if n < 10 then [''0123456789'' ! n]
               else digits (n div 10) @ [''0123456789'' ! (n mod 10)])"

declare digits.simps [simp del]

definition py_str :: "int \<Rightarrow> string" where
  "py_str i = (if i < 0 then CHR ''-'' # digits (nat (- i)) else digits (nat i))"

text \<open>
  Lines 185-192: the guards on host, path and \<^verbatim>\<open>pr\<close>. \<open>None\<close> is \<^verbatim>\<open>return None\<close>,
  also through the outer \<^verbatim>\<open>except Exception\<close>.
\<close>

definition list_query :: "urllib \<Rightarrow> string \<Rightarrow> (parse_result \<times> (string \<times> string list) list) option" where
  "list_query L current_url =
     (case urlparse L current_url of
        Inl _ \<Rightarrow> None
      | Inr parsed \<Rightarrow>
          (case urlparse L BASE_LIST_URL of
             Inl _ \<Rightarrow> None
           | Inr base \<Rightarrow>
               (if netloc parsed \<noteq> netloc base then None
                else if path parsed \<noteq> ''/jobs/'' then None
                else (case parse_qs L (query parsed) of
                        Inl _ \<Rightarrow> None
                      | Inr qs \<Rightarrow>
                          (case map_of qs ''pr'' of
                             None \<Rightarrow> None
                           | Some [] \<Rightarrow> None
                           | Some (v # _) \<Rightarrow>
                               (if v \<noteq> ''41'' then None else Some (parsed, qs)))))))"

text \<open>Lines 194-203: the page number of the successor.\<close>

definition next_pg :: "urllib \<Rightarrow> (string \<times> string list) list \<Rightarrow> int option" where
  "next_pg L qs =
     (case map_of qs ''pg'' of
        None \<Rightarrow> Some 2
      | Some [] \<Rightarrow> None
      | Some (v # _) \<Rightarrow>
          (case py_int L v of
             Inl _ \<Rightarrow> None
           | Inr x \<Rightarrow> (if x < 1 \<or> x > 1000 then None else Some (x + 1))))"

text \<open>\<^verbatim>\<open>{k: v[0] for k, v in qs.items()}\<close>; an empty list raises \<^verbatim>\<open>IndexError\<close>.\<close>

fun first_values :: "(string \<times> string list) list \<Rightarrow> (string \<times> string) list result" where
  "first_values [] = Inr []"
| "first_values ((k, []) # rest) = Inl OtherException"
| "first_values ((k, v # _) # rest) =
     (case first_values rest of Inl e \<Rightarrow> Inl e | Inr d \<Rightarrow> Inr ((k, v) # d))"

text \<open>Lines 205-208: the successor URL.\<close>

definition next_url_of ::
  "urllib \<Rightarrow> parse_result \<Rightarrow> (string \<times> string list) list \<Rightarrow> int \<Rightarrow> string option" where
  "next_url_of L parsed qs n =
     (case first_values (AList.update ''pg'' [py_str n] qs) of
        Inl _ \<Rightarrow> None
      | Inr d \<Rightarrow>
          (case urlencode L d of
             Inl _ \<Rightarrow> None
           | Inr new_query \<Rightarrow>
               (case urlunparse L \<lparr>scheme = scheme parsed, netloc = netloc parsed,
                                    path = path parsed, params = [], query = new_query,
                                    fragment = []\<rparr> of
                  Inl _ \<Rightarrow> None
                | Inr next_url \<Rightarrow> Some next_url)))"

definition compute_next_list_url :: "urllib \<Rightarrow> string \<Rightarrow> string option" where
  "compute_next_list_url L current_url =
     (case list_query L current_url of
        None \<Rightarrow> None
      | Some (parsed, qs) \<Rightarrow>
          (case next_pg L qs of
             None \<Rightarrow> None
           | Some n \<Rightarrow> next_url_of L parsed qs n))"

text \<open>
  The page number \<^verbatim>\<open>compute_next_list_url\<close> writes into the successor of a URL
  (\<open>None\<close> when it returns before line 205), and the URLs reached by following it at
  most \<open>n\<close> times.
\<close>

definition written_pg :: "urllib \<Rightarrow> string \<Rightarrow> int option" where
  "written_pg L u = (case list_query L u of None \<Rightarrow> None | Some (parsed, qs) \<Rightarrow> next_pg L qs)"

fun follow :: "urllib \<Rightarrow> nat \<Rightarrow> string \<Rightarrow> string list" where
  "follow L 0 u = [u]"
| "follow L (Suc n) u =
     u # (case compute_next_list_url L u of None \<Rightarrow> [] | Some u' \<Rightarrow> follow L n u')"

text \<open>
  Along a list of URLs, the library reads back from each URL the page number that was
  written into it: if a URL and its successor both have a next page, the second is one
  more than the first.
\<close>

fun reads_back :: "urllib \<Rightarrow> string list \<Rightarrow> bool" where
  "reads_back L (u # u' # us) =
     ((case (written_pg L u, written_pg L u') of
         (Some n, Some m) \<Rightarrow> m = n + 1
       | _ \<Rightarrow> True) \<and> reads_back L (u' # us))"
| "reads_back L us = True"

subsection \<open>\<^verbatim>\<open>goto_list_url\<close> and \<^verbatim>\<open>run\<close> (IAI bot, lines 169-176 and 685-730)\<close>

text \<open>
  The site answers the \<open>k\<close>-th \<^verbatim>\<open>driver.get(url)\<close> with the URL the tab shows
  afterwards (line 175; a redirect makes it differ from \<open>url\<close>) or with an exception,
  and the \<open>k\<close>-th reading of \<^verbatim>\<open>driver.current_url\<close> after the jobs of a page were
  processed (line 703) with a URL, or with the exception that left
  \<^verbatim>\<open>scrape_jobs_on_page\<close> or \<^verbatim>\<open>apply_to_jobs_on_page\<close>. The Python set
  \<^verbatim>\<open>visited_urls\<close> is a list without repetition; \<open>gets\<close> records the URLs handed to
  \<^verbatim>\<open>driver.get\<close>.
\<close>

record site =
  landing :: "nat \<Rightarrow> string \<Rightarrow> string result"
  after_jobs :: "nat \<Rightarrow> string result"

record bot =
  start_page :: int
  max_pages :: int
  last_list_url :: "string option"
  visited_urls :: "string list"
  gets :: "string list"

definition goto_list_url :: "site \<Rightarrow> nat \<Rightarrow> string \<Rightarrow> bot \<Rightarrow> bot result" where
  "goto_list_url S k url b =
     (case landing S k url of
        Inl e \<Rightarrow> Inl e
      | Inr cur \<Rightarrow>
          Inr (b\<lparr>gets := gets b @ [url], last_list_url := Some cur,
                 visited_urls := List.insert cur (visited_urls b)\<rparr>))"

definition pages_done :: "bot \<Rightarrow> int" where
  "pages_done b =
     int (length (filter (\<lambda>u. contains ''/jobs/'' u \<and> contains ''pr=41'' u) (visited_urls b)))"

datatype stop = No_next_url | Page_limit | Already_visited | Raised exn | Still_running

text \<open>
  The \<^verbatim>\<open>while True\<close> loop may run for ever (a site that keeps redirecting), so the
  model runs at most \<open>fuel\<close> iterations and reports \<open>Still_running\<close> when they are
  used up. It returns the bot's state at the start of every iteration it began, and why
  it stopped. The test \<^verbatim>\<open>if not next_url\<close> (line 708) holds of \<^verbatim>\<open>None\<close> and of the empty
  string.
\<close>

fun run_loop :: "site \<Rightarrow> urllib \<Rightarrow> nat \<Rightarrow> nat \<Rightarrow> bot \<Rightarrow> bot list \<times> stop" where
  "run_loop S L 0 k b = ([b], Still_running)"
| "run_loop S L (Suc fuel) k b =
     (case after_jobs S k of
        Inl e \<Rightarrow> ([b], Raised e)
      | Inr url_now \<Rightarrow>
          (case compute_next_list_url L url_now of
             None \<Rightarrow> ([b], No_next_url)
           | Some next_url \<Rightarrow>
               (if next_url = [] then ([b], No_next_url)
                else if max_pages b > 0 \<and> pages_done b \<ge> max_pages b + (start_page b - 1)
                then ([b], Page_limit)
                else if next_url \<in> set (visited_urls b) then ([b], Already_visited)
                else (case goto_list_url S (Suc k) next_url (b\<lparr>last_list_url := Some next_url\<rparr>) of
                        Inl e \<Rightarrow> ([b], Raised e)
                      | Inr b' \<Rightarrow>
                          (let (states, why) = run_loop S L fuel (Suc k) b'
                           in (b # states, why))))))"

definition run :: "site \<Rightarrow> urllib \<Rightarrow> nat \<Rightarrow> int \<Rightarrow> int \<Rightarrow> bot list \<times> stop" where
  "run S L fuel start_page_arg max_pages_arg =
     (let b0 = \<lparr>start_page = max 1 start_page_arg, max_pages = max 0 max_pages_arg,
                last_list_url = None, visited_urls = [], gets = []\<rparr>;
          initial_url = (if start_page b0 \<le> 1 then BASE_LIST_URL
                         else BASE_LIST_URL @ ''&pg='' @ py_str (start_page b0))
      in case goto_list_url S 0 initial_url b0 of
           Inl e \<Rightarrow> ([b0], Raised e)
         | Inr b \<Rightarrow> run_loop S L fuel 0 b)"

text \<open>
  One iteration of the loop that goes on to a next page, read off two consecutive
  states: the URL computed from the current one was not in the set, was handed to
  \<^verbatim>\<open>driver.get\<close>, and the set did not shrink. \<open>steps_ok\<close> says so of every two
  consecutive states of a list, the first belonging to iteration \<open>k\<close>.
\<close>

definition step_ok :: "site \<Rightarrow> urllib \<Rightarrow> nat \<Rightarrow> bot \<Rightarrow> bot \<Rightarrow> bool" where
  "step_ok S L k b b' =
     (case after_jobs S k of
        Inl _ \<Rightarrow> False
      | Inr url_now \<Rightarrow>
          (case compute_next_list_url L url_now of
             None \<Rightarrow> False
           | Some u \<Rightarrow> u \<notin> set (visited_urls b) \<and> gets b' = gets b @ [u]
                       \<and> set (visited_urls b) \<subseteq> set (visited_urls b')))"

fun steps_ok :: "site \<Rightarrow> urllib \<Rightarrow> nat \<Rightarrow> bot list \<Rightarrow> bool" where
  "steps_ok S L k (b # b' # rest) = (step_ok S L k b b' \<and> steps_ok S L (Suc k) (b' # rest))"
| "steps_ok S L k bs = True"

subsection \<open>Concrete elements, pages and sites\<close>

text \<open>An element under an overlay: the native click is intercepted, the scripts work.\<close>

definition overlaid :: element where
  "overlaid = \<lparr>native_click = Inl ElementClickInterceptedException,
                scroll_into_view = Inr (), js_click = Inr (), action_chain = Inr ()\<rparr>"

text \<open>An element on which every call raises.\<close>

definition stuck :: element where
  "stuck = \<lparr>native_click = Inl OtherException, scroll_into_view = Inl OtherException,
             js_click = Inl OtherException, action_chain = Inl OtherException\<rparr>"

text \<open>
  A page with two top-level frames: the first holds a child frame with the target, the
  second holds the target itself. And a driver that has received no command.
\<close>

definition nested :: frame where
  "nested = Frame False [Frame False [Frame True []], Frame True []]"

definition fresh :: driver where
  "fresh = \<lparr>ctx = [], cmds = []\<rparr>"

text \<open>
  A page that shows the given page label, counter text and first job link; and three
  answers of the browser to the polls of the Nvidia wait, each with the time a snapshot
  takes. \<open>first_job_changes\<close>: from the third poll on the first job link differs, the
  counter is gone and the page label is unchanged. \<open>counter_appears\<close>: every poll shows
  the counter where there was none, the rest unchanged. \<open>slow_page\<close>: nothing changes
  and every snapshot takes one second.
\<close>

definition page_showing :: "string \<Rightarrow> string \<Rightarrow> string \<Rightarrow> page_obs" where
  "page_showing p c f =
     \<lparr>navs = Inr [Inr [\<lparr>aria_label = Inr (Some p), btn_text = Inr []\<rparr>]],
      out_of_text = Inr c,
      job_links = Inr [(Inr True, Inr (Some f))]\<rparr>"

definition first_job_changes :: "nat \<Rightarrow> nat \<times> page_obs" where
  "first_job_changes k =
     (0, if k < 2 then page_showing ''1'' [] ''/job/a'' else page_showing ''1'' [] ''/job/b'')"

definition counter_appears :: "nat \<Rightarrow> nat \<times> page_obs" where
  "counter_appears k = (0, page_showing ''1'' ''1-20 of 40'' ''x'')"

definition slow_page :: "nat \<Rightarrow> nat \<times> page_obs" where
  "slow_page k = (1000, page_showing ''1'' ''1-20 of 40'' ''x'')"

text \<open>
  Tabs for the IAI wait: the application tab and the list tab, neither on the thank-you
  page, each poll taking 200 ms; and the same with the application tab on the thank-you
  page from the third poll on.
\<close>

definition no_redirect :: "nat \<Rightarrow> nat \<times> tabs_obs" where
  "no_redirect k =
     (200, \<lparr>cur_url = Inr (Some ''https://jobs.iai.co.il/application/7/''),
            handles = Inr [Inr (Some ''https://jobs.iai.co.il/jobs/?pr=41''),
                           Inr (Some ''https://jobs.iai.co.il/application/7/'')]\<rparr>)"

definition redirect_at_third :: "nat \<Rightarrow> nat \<times> tabs_obs" where
  "redirect_at_third k =
     (if k < 2 then no_redirect k
      else (200, \<lparr>cur_url = Inr (Some ''https://jobs.iai.co.il/thank-you/''),
                  handles = Inr []\<rparr>))"

text \<open>
  What the driver answers after the loop of the IAI wait: the list tab is still open and
  the switch to it works, the calls taking 300 ms; or the browser is gone and
  \<^verbatim>\<open>window_handles\<close> raises.
\<close>

definition list_tab_open :: back_obs where
  "list_tab_open =
     \<lparr>handles_then = Inr [''list'', ''application''], switch_main = Inr (), back_cost = 300\<rparr>"

definition browser_gone :: back_obs where
  "browser_gone =
     \<lparr>handles_then = Inl OtherException, switch_main = Inl OtherException, back_cost = 300\<rparr>"

text \<open>
  Four sign-in locators: the first times out, the second finds a hidden element, the
  third and the fourth find displayed elements.
\<close>

definition hidden_then_shown :: "located list" where
  "hidden_then_shown = [Inl TimeoutException, Inr (7, Inr False), Inr (8, Inr True), Inr (9, Inr True)]"

text \<open>
  A submission whose redirect arrives late: the submit button sits under an overlay, the
  first wait of 12 s sees no redirect, and the tab is on the thank-you page (which still
  carries a reCAPTCHA frame) when \<^verbatim>\<open>_recaptcha_visible\<close> is asked. And the
  application form with a reCAPTCHA frame.
\<close>

definition thank_you_tabs :: "nat \<Rightarrow> nat \<times> tabs_obs" where
  "thank_you_tabs k =
     (200, \<lparr>cur_url = Inr (Some ''https://jobs.iai.co.il/thank-you/''), handles = Inr []\<rparr>)"

definition thank_you_with_widget :: captcha_obs where
  "thank_you_with_widget =
     \<lparr>page_url = Inr (Some ''https://jobs.iai.co.il/thank-you/''),
      recaptcha_iframes = Inr 1, recaptcha_boxes = Inr 1\<rparr>"

definition form_with_widget :: captcha_obs where
  "form_with_widget =
     \<lparr>page_url = Inr (Some ''https://jobs.iai.co.il/application/7/''),
      recaptcha_iframes = Inr 1, recaptcha_boxes = Inr 0\<rparr>"

definition late_redirect :: submit_env where
  "late_redirect =
     \<lparr>submit_btn = Inr overlaid, clickable = Inr (), button_disabled = Inr False,
      page_before_click = form_with_widget, page_after_wait = thank_you_with_widget,
      main_tab = Some ''list'',
      manual_start = 0, manual_polls = no_redirect, manual_back = list_tab_open,
      first_start = 0, first_polls = no_redirect, first_back = list_tab_open,
      second_start = 12500, second_polls = thank_you_tabs, second_back = list_tab_open\<rparr>"

text \<open>
  A small URL library for running the IAI functions on concrete URLs of the shape
  \<^verbatim>\<open>scheme://host/path?k=v&k=v\<close> without escapes, parameters or fragment: it splits
  at the first \<^verbatim>\<open>:\<close>, \<^verbatim>\<open>/\<close> and \<^verbatim>\<open>?\<close>, reads the query as pairs (dropping blank
  values, collecting repeated keys), reads decimal digits as an integer, and writes the
  components back in the same shape. The theorems about \<^verbatim>\<open>compute_next_list_url\<close>
  and \<^verbatim>\<open>run\<close> hold for every library; this one only serves the concrete runs.
\<close>

definition split_once :: "char \<Rightarrow> string \<Rightarrow> string \<times> string" where
  "split_once c s = (takeWhile (\<lambda>x. x \<noteq> c) s, drop 1 (dropWhile (\<lambda>x. x \<noteq> c) s))"

definition split_all :: "char \<Rightarrow> string \<Rightarrow> string list" where
  "split_all c s = foldr (\<lambda>x acc. if x = c then [] # acc else (x # hd acc) # tl acc) s [[]]"

definition add_pair :: "(string \<times> string list) list \<Rightarrow> string \<times> string \<Rightarrow> (string \<times> string list) list" where
  "add_pair d kv =
     (case map_of d (fst kv) of
        None \<Rightarrow> d @ [(fst kv, [snd kv])]
      | Some vs \<Rightarrow> AList.update (fst kv) (vs @ [snd kv]) d)"

definition plain_parse_qs :: "string \<Rightarrow> (string \<times> string list) list result" where
  "plain_parse_qs q =
     Inr (foldl add_pair []
            (filter (\<lambda>kv. snd kv \<noteq> []) (map (split_once CHR ''='') (split_all CHR ''&'' q))))"

definition plain_urlparse :: "string \<Rightarrow> parse_result result" where
  "plain_urlparse u =
     (let rest = drop 3 (dropWhile (\<lambda>x. x \<noteq> CHR '':'') u);
          pq = dropWhile (\<lambda>x. x \<noteq> CHR ''/'') rest
      in Inr \<lparr>scheme = takeWhile (\<lambda>x. x \<noteq> CHR '':'') u,
              netloc = takeWhile (\<lambda>x. x \<noteq> CHR ''/'') rest,
              path = fst (split_once CHR ''?'' pq), params = [],
              query = snd (split_once CHR ''?'' pq), fragment = []\<rparr>)"

fun join_pairs :: "(string \<times> string) list \<Rightarrow> string" where
  "join_pairs [] = []"
| "join_pairs [(k, v)] = k @ ''='' @ v"
| "join_pairs ((k, v) # rest) = k @ ''='' @ v @ ''&'' @ join_pairs rest"

definition plain_urlunparse :: "parse_result \<Rightarrow> string result" where
  "plain_urlunparse p =
     Inr (scheme p @ ''://'' @ netloc p @ path p
          @ (if query p = [] then [] else CHR ''?'' # query p))"

definition plain_int :: "string \<Rightarrow> int result" where
  "plain_int s =
     (if s \<noteq> [] \<and> list_all (\<lambda>c. 48 \<le> (of_char c :: nat) \<and> (of_char c :: nat) \<le> 57) s
      then Inr (foldl (\<lambda>a c. 10 * a + (int (of_char c) - 48)) 0 s)
      else Inl OtherException)"

definition plain_urllib :: urllib where
  "plain_urllib = \<lparr>urlparse = plain_urlparse, parse_qs = plain_parse_qs, py_int = plain_int,
                   urlencode = (\<lambda>d. Inr (join_pairs d)), urlunparse = plain_urlunparse\<rparr>"

text \<open>
  Two sites. On the first every URL loads as requested, but the list tab is back on the
  first page whenever the bot reads its URL. The second redirects every request to the
  first page.
\<close>

definition stays_on_first_page :: site where
  "stays_on_first_page = \<lparr>landing = (\<lambda>k url. Inr url), after_jobs = (\<lambda>k. Inr BASE_LIST_URL)\<rparr>"

definition redirects_to_first_page :: site where
  "redirects_to_first_page =
     \<lparr>landing = (\<lambda>k url. Inr BASE_LIST_URL), after_jobs = (\<lambda>k. Inr BASE_LIST_URL)\<rparr>"

section \<open>Verification\<close>

subsection \<open>The click fallback chain\<close>

lemma returns_simps: "returns (Inr x) = True" "returns (Inl e) = False"
  by (simp_all add: returns_def)

text \<open>
  C3. Whatever the four driver calls do: \<^verbatim>\<open>robust_click\<close> makes its calls in the
  order native click, scroll, JavaScript click, pointer sequence; the native click is
  always made and made first; the second stage is entered exactly when the first
  raised, and its JavaScript click is made exactly when the scroll before it returned;
  the third stage is entered exactly when the first and the second both failed; and the
  function returns \<open>True\<close> exactly when one of the three stages succeeds, hence
  \<open>False\<close>, never an exception, exactly when all three fail.
\<close>

theorem robust_click_fallback_chain:
  "subseq (snd (robust_click el)) [Native_click, Scroll_into_view, Js_click, Action_chain]
   \<and> hd (snd (robust_click el)) = Native_click
   \<and> Native_click \<in> set (snd (robust_click el))
   \<and> (Scroll_into_view \<in> set (snd (robust_click el)) \<longleftrightarrow> \<not> stage1 el)
   \<and> (Js_click \<in> set (snd (robust_click el)) \<longleftrightarrow> \<not> stage1 el \<and> returns (scroll_into_view el))
   \<and> (Action_chain \<in> set (snd (robust_click el)) \<longleftrightarrow> \<not> stage1 el \<and> \<not> stage2 el)
   \<and> (fst (robust_click el) \<longleftrightarrow> stage1 el \<or> stage2 el \<or> stage3 el)"
  by (simp add: robust_click_def third_stage_def stage1_def stage2_def stage3_def
           returns_simps split: sum.splits)

theorem robust_click_fallback_chain_witness:
  "robust_click overlaid = (True, [Native_click, Scroll_into_view, Js_click])
   \<and> \<not> stage1 overlaid \<and> stage2 overlaid"
  using robust_click_fallback_chain [of overlaid]
  by (simp add: robust_click_def overlaid_def stage1_def stage2_def returns_simps)

subsection \<open>Ordered locator lists\<close>

lemma fst_robust_click: "fst (robust_click el) = (stage1 el \<or> stage2 el \<or> stage3 el)"
  by (simp add: robust_click_def third_stage_def stage1_def stage2_def stage3_def
           returns_simps split: sum.splits)

lemma safe_click_eq: "safe_click w = Inr (clicks w)"
  by (simp add: safe_click_def safe_click_try_def clicks_def fst_robust_click split: sum.splits)

lemma any_safe_click_eq:
  "any_safe_click ws = (list_ex clicks ws, length (until_first clicks ws))"
  by (induction ws) (simp_all add: safe_click_eq)

lemma quiet_simps:
  "quiet (Inl e) = (e = TimeoutException)"
  "quiet (Inr (el, shown)) = (shown = Inr False \<or> shown = Inl TimeoutException)"
  by (simp_all add: quiet_def)

lemma sign_in_outcome_simps:
  "sign_in_outcome (Inl e) = Inl e"
  "sign_in_outcome (Inr (el, Inl e)) = Inl e"
  "sign_in_outcome (Inr (el, Inr b)) = Inr el"
  by (simp_all add: sign_in_outcome_def)

lemma sign_in_loop_quiet:
  "quiet w \<Longrightarrow> sign_in_loop (w # ws) = (fst (sign_in_loop ws), Suc (snd (sign_in_loop ws)))"
  by (cases w)
     (auto simp: split_beta quiet_simps sign_in_outcome_simps
           split: exn.splits sum.splits bool.splits)

lemma sign_in_loop_loud:
  "\<not> quiet w \<Longrightarrow> sign_in_loop (w # ws) = (map_sum id Some (sign_in_outcome w), 1)"
  by (cases w)
     (auto simp: split_beta quiet_simps sign_in_outcome_simps
           split: exn.splits sum.splits bool.splits)

lemma sign_in_loop_eq:
  "sign_in_loop ls =
     (case dropWhile quiet ls of
        [] \<Rightarrow> (Inr None, length ls)
      | w # _ \<Rightarrow> (map_sum id Some (sign_in_outcome w), Suc (length (takeWhile quiet ls))))"
proof (induction ls)
  case Nil
  then show ?case by simp
next
  case (Cons w ls)
  show ?case
  proof (cases "quiet w")
    case True
    have step: "sign_in_loop (w # ls) = (fst (sign_in_loop ls), Suc (snd (sign_in_loop ls)))"
      using True by (rule sign_in_loop_quiet)
    show ?thesis
    proof (cases "dropWhile quiet ls")
      case Nil
      have "sign_in_loop ls = (Inr None, length ls)"
        using Cons.IH unfolding Nil by simp
      moreover have "dropWhile quiet (w # ls) = []"
        using True Nil by simp
      ultimately show ?thesis unfolding step by simp
    next
      case (Cons v rest)
      have "sign_in_loop ls
              = (map_sum id Some (sign_in_outcome v), Suc (length (takeWhile quiet ls)))"
        using Cons.IH unfolding Cons by simp
      moreover have "dropWhile quiet (w # ls) = v # rest"
        using True Cons by simp
      moreover have "takeWhile quiet (w # ls) = w # takeWhile quiet ls"
        using True by simp
      ultimately show ?thesis unfolding step by simp
    qed
  next
    case False
    then show ?thesis by (simp add: sign_in_loop_loud del: sign_in_loop.simps)
  qed
qed

lemma find_sign_in_eq:
  "find_sign_in ls =
     (case dropWhile quiet ls of
        [] \<Rightarrow> (Inl NoSuchElementException, length ls)
      | w # _ \<Rightarrow> (sign_in_outcome w, Suc (length (takeWhile quiet ls))))"
proof (cases "dropWhile quiet ls")
  case Nil
  show ?thesis unfolding find_sign_in_def sign_in_loop_eq Nil by simp
next
  case (Cons w rest)
  show ?thesis unfolding find_sign_in_def sign_in_loop_eq Cons
    by (cases "sign_in_outcome w") simp_all
qed

subsection \<open>The frame search\<close>

lemma after_attempts_Nil: "after_attempts [] d = d"
  by (simp add: after_attempts_def)

lemma after_attempts_append:
  "after_attempts (ps @ qs) d = after_attempts qs (after_attempts ps d)"
  by (simp add: after_attempts_def)

lemma after_attempts_Cons:
  "after_attempts (p # ps) d = after_attempts ps (after_attempts [p] d)"
  using after_attempts_append [of "[p]" ps d] by simp

lemma until_first_append:
  "until_first P (xs @ ys) = (if list_ex P xs then until_first P xs else xs @ until_first P ys)"
  by (induction xs) auto

lemma until_first_none: "\<not> list_ex P xs \<Longrightarrow> until_first P xs = xs"
  by (induction xs) auto

lemma attempt2:
  "wait_presence page (switch_frame j (switch_frame i (default_content d)))
     = (target_at page [i, j], after_attempts [[i, j]] d)"
  by (simp add: wait_presence_def switch_frame_def default_content_def after_attempts_def
        attempt_def)

lemma attempt1:
  "wait_presence page (switch_frame i (default_content d))
     = (target_at page [i], after_attempts [[i]] d)"
  by (simp add: wait_presence_def switch_frame_def default_content_def after_attempts_def
        attempt_def)

lemma attempt0:
  "wait_presence page (default_content d) = (target_at page [], after_attempts [[]] d)"
  by (simp add: wait_presence_def default_content_def after_attempts_def attempt_def)

lemma loop_f2_eq:
  "loop_f2 page i js d =
     (list_ex (target_at page) (map (\<lambda>j. [i, j]) js),
      after_attempts (until_first (target_at page) (map (\<lambda>j. [i, j]) js)) d)"
proof (induction js arbitrary: d)
  case Nil
  then show ?case by (simp add: after_attempts_Nil)
next
  case (Cons j js)
  show ?case
    by (simp add: attempt2 Cons after_attempts_Cons [of "[i, j]", symmetric])
qed

lemma find_iframes_ctx: "ctx d = p \<Longrightarrow> find_iframes page d = children page p"
  by (simp add: find_iframes_def children_def)

lemma ctx_after_attempts: "ps \<noteq> [] \<Longrightarrow> ctx (after_attempts ps d) = last ps"
  by (simp add: after_attempts_def)

lemma loop_f1_step:
  "loop_f1 page (i # is) d =
     (if target_at page [i] then (True, after_attempts [[i]] d)
      else if list_ex (target_at page) (map (\<lambda>j. [i, j]) (children page [i]))
      then (True, after_attempts
                    (until_first (target_at page) (map (\<lambda>j. [i, j]) (children page [i])))
                    (after_attempts [[i]] d))
      else loop_f1 page is
             (after_attempts
                (until_first (target_at page) (map (\<lambda>j. [i, j]) (children page [i])))
                (after_attempts [[i]] d)))"
proof -
  have kids: "find_iframes page (after_attempts [[i]] d) = children page [i]"
    by (rule find_iframes_ctx) (simp add: ctx_after_attempts)
  show ?thesis
    by (simp add: attempt1 kids loop_f2_eq)
qed

lemma until_first_under:
  "until_first (target_at page) (under page i @ rest) =
     (if target_at page [i] then [[i]]
      else if list_ex (target_at page) (map (\<lambda>j. [i, j]) (children page [i]))
      then [i] # until_first (target_at page) (map (\<lambda>j. [i, j]) (children page [i]))
      else [i] # map (\<lambda>j. [i, j]) (children page [i]) @ until_first (target_at page) rest)"
  by (simp add: under_def until_first_append)

lemma list_ex_under:
  "list_ex (target_at page) (under page i @ rest) =
     (target_at page [i] \<or> list_ex (target_at page) (map (\<lambda>j. [i, j]) (children page [i]))
      \<or> list_ex (target_at page) rest)"
  by (simp add: under_def)

lemma loop_f1_eq:
  "loop_f1 page is d =
     (list_ex (target_at page) (concat (map (under page) is)),
      after_attempts (until_first (target_at page) (concat (map (under page) is))) d)"
proof (induction "is" arbitrary: d)
  case Nil
  then show ?case by (simp add: after_attempts_Nil)
next
  case (Cons i "is")
  let ?T = "target_at page"
  let ?kids = "map (\<lambda>j. [i, j]) (children page [i])"
  let ?rest = "concat (map (under page) is)"
  have split: "concat (map (under page) (i # is)) = under page i @ ?rest"
    by simp
  show ?case
  proof (cases "?T [i]")
    case True
    then show ?thesis
      unfolding split loop_f1_step until_first_under list_ex_under by simp
  next
    case here: False
    show ?thesis
    proof (cases "list_ex ?T ?kids")
      case True
      have "after_attempts ([i] # until_first ?T ?kids) d
              = after_attempts (until_first ?T ?kids) (after_attempts [[i]] d)"
        by (rule after_attempts_Cons)
      then show ?thesis using here True
        unfolding split loop_f1_step until_first_under list_ex_under by simp
    next
      case False
      then have all: "until_first ?T ?kids = ?kids" by (rule until_first_none)
      have "after_attempts ([i] # ?kids @ until_first ?T ?rest) d
              = after_attempts (until_first ?T ?rest)
                  (after_attempts ?kids (after_attempts [[i]] d))"
        by (simp add: after_attempts_Cons [of "[i]" "?kids @ until_first ?T ?rest" d]
              after_attempts_append)
      then show ?thesis using here False
        unfolding split loop_f1_step until_first_under list_ex_under all Cons by simp
    qed
  qed
qed

lemma preorder2_under: "preorder2 page = [] # concat (map (under page) (children page []))"
  by (simp add: preorder2_def under_def [abs_def])

lemma switch_to_frame_containing_eq:
  "switch_to_frame_containing page d =
     (if list_ex (target_at page) (preorder2 page)
      then (Inr (), after_attempts (until_first (target_at page) (preorder2 page)) d)
      else (Inl NoSuchElementException, default_content (after_attempts (preorder2 page) d)))"
proof -
  let ?T = "target_at page"
  let ?rest = "concat (map (under page) (children page []))"
  have kids: "find_iframes page (after_attempts [[]] d) = children page []"
    by (rule find_iframes_ctx) (simp add: ctx_after_attempts)
  show ?thesis
  proof (cases "?T []")
    case True
    then show ?thesis
      by (simp add: switch_to_frame_containing_def attempt0 preorder2_under)
  next
    case False
    then show ?thesis
      by (simp add: switch_to_frame_containing_def attempt0 kids loop_f1_eq preorder2_under
            until_first_none after_attempts_Cons [of "[]", symmetric])
  qed
qed

lemma probes_append: "probes (xs @ ys) = probes xs @ probes ys"
  by (induction xs rule: probes.induct) simp_all

lemma probes_map_switch: "probes (map Switch_frame p @ cs) = probes cs"
  by (induction p) simp_all

lemma probes_switches: "probes (map Switch_frame p) = []"
  by (induction p) simp_all

lemma probes_attempts: "probes (concat (map attempt ps)) = ps"
  by (induction ps) (simp_all add: attempt_def probes_append probes_map_switch probes_switches)

lemma frame_at_Some_iff2:
  "p \<in> set (preorder2 page) \<longleftrightarrow> length p \<le> 2 \<and> frame_at page p \<noteq> None"
proof (cases p)
  case Nil
  then show ?thesis by (simp add: preorder2_def)
next
  case (Cons i q)
  show ?thesis
  proof (cases q)
    case Nil
    then show ?thesis using Cons
      by (auto simp: preorder2_def children_def)
  next
    case (Cons j r)
    then show ?thesis using \<open>p = i # q\<close>
      by (cases r) (fastforce simp: preorder2_def children_def split: option.splits if_splits)+
  qed
qed

lemma until_first_Nil_iff: "until_first P xs = [] \<longleftrightarrow> xs = []"
  by (cases xs) simp_all

lemma last_until_first: "list_ex P xs \<Longrightarrow> P (last (until_first P xs))"
  by (induction xs) (auto simp: until_first_Nil_iff)

text \<open>
  C4 (as amended). For every page and locator: the first wait runs in the top document;
  the search goes on to the frames only when that wait fails; the contexts it waits in
  are those of depth at most 2 in pre-order (each top-level frame followed at once by
  its own child frames, so depth-first and not breadth-first), up to and including the
  first that holds the target; every attempt starts with \<^verbatim>\<open>default_content\<close>, and one
  more \<^verbatim>\<open>default_content\<close> precedes the failure; the search raises
  \<^verbatim>\<open>NoSuchElementException\<close> exactly when no context of depth at most 2 holds the
  target, and then leaves the driver in the top document; otherwise it leaves the driver
  in the first context of the pre-order that holds the target.
\<close>

theorem frame_search_preorder:
  "probes (cmds (snd (switch_to_frame_containing page d)))
     = probes (cmds d) @ until_first (target_at page) (preorder2 page)
   \<and> hd (preorder2 page) = []
   \<and> (\<forall>p. p \<in> set (preorder2 page) \<longleftrightarrow> length p \<le> 2 \<and> frame_at page p \<noteq> None)
   \<and> cmds (snd (switch_to_frame_containing page d))
       = cmds d @ concat (map attempt (until_first (target_at page) (preorder2 page)))
           @ (if fst (switch_to_frame_containing page d) = Inr () then [] else [Default_content])
   \<and> (fst (switch_to_frame_containing page d) = Inl NoSuchElementException
        \<longleftrightarrow> \<not> (\<exists>p. length p \<le> 2 \<and> target_at page p))
   \<and> (fst (switch_to_frame_containing page d) = Inr ()
        \<longleftrightarrow> (\<exists>p. length p \<le> 2 \<and> target_at page p))
   \<and> (fst (switch_to_frame_containing page d) = Inr ()
        \<longrightarrow> ctx (snd (switch_to_frame_containing page d))
              = last (until_first (target_at page) (preorder2 page))
            \<and> target_at page (ctx (snd (switch_to_frame_containing page d))))
   \<and> (fst (switch_to_frame_containing page d) \<noteq> Inr ()
        \<longrightarrow> ctx (snd (switch_to_frame_containing page d)) = [])"
proof -
  let ?T = "target_at page"
  let ?ps = "preorder2 page"
  have ex: "list_ex ?T ?ps \<longleftrightarrow> (\<exists>p. length p \<le> 2 \<and> ?T p)"
  proof
    assume "list_ex ?T ?ps"
    then obtain p where "p \<in> set ?ps" "?T p" by (auto simp: list_ex_iff)
    then show "\<exists>p. length p \<le> 2 \<and> ?T p" using frame_at_Some_iff2 by blast
  next
    assume "\<exists>p. length p \<le> 2 \<and> ?T p"
    then obtain p where p: "length p \<le> 2" "?T p" by blast
    then have "frame_at page p \<noteq> None" by (auto simp: target_at_def split: option.splits)
    then have "p \<in> set ?ps" using p frame_at_Some_iff2 by blast
    then show "list_ex ?T ?ps" using p by (auto simp: list_ex_iff)
  qed
  have ne: "until_first ?T ?ps \<noteq> []" by (simp add: preorder2_def)
  note found = last_until_first
  have none: "\<not> list_ex ?T ?ps \<Longrightarrow> until_first ?T ?ps = ?ps"
    by (rule until_first_none)
  show ?thesis
  proof (cases "list_ex ?T ?ps")
    case True
    then show ?thesis
      using ex found [OF True] ne frame_at_Some_iff2
      by (simp add: switch_to_frame_containing_eq after_attempts_def probes_append
            probes_attempts preorder2_def [of page, THEN arg_cong [of _ _ hd]])
  next
    case False
    then show ?thesis
      using ex none [OF False] frame_at_Some_iff2
      by (simp add: switch_to_frame_containing_eq after_attempts_def probes_append
            probes_attempts default_content_def
            preorder2_def [of page, THEN arg_cong [of _ _ hd]])
  qed
qed

text \<open>
  The search on the page \<open>nested\<close>: it ends in the child of the first frame, after
  three attempts.
\<close>

theorem frame_search_preorder_witness:
  "switch_to_frame_containing nested fresh
     = (Inr (), \<lparr>ctx = [0, 0],
                  cmds = [Default_content, Wait_presence [],
                          Default_content, Switch_frame 0, Wait_presence [0],
                          Default_content, Switch_frame 0, Switch_frame 0, Wait_presence [0, 0]]\<rparr>)
   \<and> target_at nested [0, 0]
   \<and> until_first (target_at nested) (preorder2 nested) = [[], [0], [0, 0]]"
  using frame_search_preorder [of nested fresh]
  by (simp add: switch_to_frame_containing_def nested_def fresh_def wait_presence_def
        default_content_def switch_frame_def find_iframes_def target_at_def preorder2_def
        children_def)

text \<open>
  C4 as stated fails on \<open>nested\<close>: a breadth-first search would try the second
  top-level frame (which holds the target) third and stop there, the code tries the
  child of the first frame third and stops there.
\<close>

theorem frame_search_not_breadth_first:
  "probes (cmds (snd (switch_to_frame_containing nested fresh))) = [[], [0], [0, 0]]
   \<and> ctx (snd (switch_to_frame_containing nested fresh)) = [0, 0]
   \<and> until_first (target_at nested) (breadth_first2 nested) = [[], [0], [1]]"
  by (simp add: switch_to_frame_containing_def nested_def fresh_def wait_presence_def
        default_content_def switch_frame_def find_iframes_def target_at_def breadth_first2_def
        children_def)

subsection \<open>The convergence waits\<close>

lemma test_time_mono: "k \<le> j \<Longrightarrow> test_time env start k \<le> test_time env start j"
  by (induction j) (auto simp: le_Suc_eq)

lemma test_time_lower: "start + 600 * int k \<le> test_time env start k"
  by (induction k) auto

lemma state_changed_signals:
  "state_changed b a \<longleftrightarrow>
     (\<exists>i<3. signals b ! i \<noteq> [] \<and> signals a ! i \<noteq> [] \<and> signals a ! i \<noteq> signals b ! i)"
proof -
  obtain b0 b1 b2 where b: "b = (b0, b1, b2)" by (cases b)
  obtain a0 a1 a2 where a: "a = (a0, a1, a2)" by (cases a)
  have three: "(\<exists>i<3. P i) \<longleftrightarrow> P 0 \<or> P 1 \<or> P (2::nat)" for P
    by (auto simp: numeral_3_eq_3 less_Suc_eq numeral_2_eq_2)
  show ?thesis unfolding three
    by (auto simp: a b state_changed_def signals_def)
qed

lemma next_page_wait_result:
  "now = test_time env start k \<Longrightarrow>
   fst (next_page_wait start now b env k)
     = (\<exists>j\<ge>k. test_time env start j - start < 20000
              \<and> state_changed b (get_pagination_state (snd (env j))))"
proof (induction start now b env k rule: next_page_wait.induct)
  case (1 start now b env k)
  let ?ch = "\<lambda>j. state_changed b (get_pagination_state (snd (env j)))"
  show ?case
  proof (cases "now - start < 20000")
    case False
    have "\<not> (\<exists>j\<ge>k. test_time env start j - start < 20000 \<and> ?ch j)"
    proof
      assume "\<exists>j\<ge>k. test_time env start j - start < 20000 \<and> ?ch j"
      then obtain j where j: "k \<le> j" "test_time env start j - start < 20000" by blast
      from test_time_mono [OF j(1), of env start] j(2) False 1(2) show False by simp
    qed
    then show ?thesis using False by (simp add: next_page_wait.simps [of start now])
  next
    case True
    obtain cost pg where e: "env k = (cost, pg)" by (cases "env k")
    show ?thesis
    proof (cases "?ch k")
      case ch: True
      have "\<exists>j\<ge>k. test_time env start j - start < 20000 \<and> ?ch j"
        using True ch 1(2) by (intro exI [of _ k]) simp
      then show ?thesis using True ch e
        by (simp add: next_page_wait.simps [of start now])
    next
      case ch: False
      have next_t: "now + 600 + int cost = test_time env start (Suc k)"
        using 1(2) e by simp
      have ch': "\<not> state_changed b (get_pagination_state pg)"
        using ch e by simp
      have IH: "fst (next_page_wait start (now + 600 + int cost) b env (Suc k))
                 = (\<exists>j\<ge>Suc k. test_time env start j - start < 20000 \<and> ?ch j)"
        by (rule 1(1) [OF True refl e [symmetric] refl refl ch' next_t])
      have "(\<exists>j\<ge>Suc k. test_time env start j - start < 20000 \<and> ?ch j)
             = (\<exists>j\<ge>k. test_time env start j - start < 20000 \<and> ?ch j)"
        using ch by (metis Suc_leD Suc_leI le_neq_implies_less)
      then show ?thesis using True ch e IH
        by (simp add: next_page_wait.simps [of start now])
    qed
  qed
qed

lemma next_page_wait_timing:
  "now = test_time env start k \<Longrightarrow> next_page_wait start now b env k = (r, t, n) \<Longrightarrow>
   k \<le> n \<and> t = test_time env start n
   \<and> (k < n \<longrightarrow> test_time env start (n - 1) - start < 20000)
   \<and> (n = k \<longrightarrow> \<not> r \<and> \<not> now - start < 20000)"
proof (induction start now b env k rule: next_page_wait.induct)
  case (1 start now b env k)
  show ?case
  proof (cases "now - start < 20000")
    case False
    have "r = False \<and> t = now \<and> n = k"
      using 1(3) False by (simp add: next_page_wait.simps [of start now])
    then show ?thesis using 1(2) False by simp
  next
    case True
    obtain cost pg where e: "env k = (cost, pg)" by (cases "env k")
    show ?thesis
    proof (cases "state_changed b (get_pagination_state pg)")
      case ch: True
      have "r = True \<and> t = now + 600 + int cost \<and> n = Suc k"
        using 1(3) True e ch by (simp add: next_page_wait.simps [of start now])
      then show ?thesis using 1(2) True e by simp
    next
      case ch: False
      have next_t: "now + 600 + int cost = test_time env start (Suc k)"
        using 1(2) e by simp
      have rec: "next_page_wait start (now + 600 + int cost) b env (Suc k) = (r, t, n)"
        using 1(3) True e ch by (simp add: next_page_wait.simps [of start now])
      have IH: "Suc k \<le> n \<and> t = test_time env start n
                \<and> (Suc k < n \<longrightarrow> test_time env start (n - 1) - start < 20000)
                \<and> (n = Suc k \<longrightarrow> \<not> r \<and> \<not> now + 600 + int cost - start < 20000)"
        by (rule 1(1) [OF True refl e [symmetric] refl refl ch next_t rec])
      show ?thesis
      proof (cases "n = Suc k")
        case True
        then show ?thesis using IH \<open>now - start < 20000\<close> 1(2) by simp
      next
        case False
        then show ?thesis using IH by auto
      qed
    qed
  qed
qed

lemma test_time_iai_mono:
  "k \<le> j \<Longrightarrow> test_time_iai env start k \<le> test_time_iai env start j"
  by (induction j) (auto simp: le_Suc_eq)

lemma test_time_iai_lower: "start + 1000 * int k \<le> test_time_iai env start k"
  by (induction k) auto

lemma thank_you_wait_result:
  "now = test_time_iai env start k \<Longrightarrow>
   fst (thank_you_loop max_wait start now env k)
     = (\<exists>j\<ge>k. test_time_iai env start j - start < 1000 * max_wait
              \<and> thank_you_found (snd (env j)))"
proof (induction max_wait start now env k rule: thank_you_loop.induct)
  case (1 max_wait start now env k)
  let ?ch = "\<lambda>j. thank_you_found (snd (env j))"
  let ?in = "\<lambda>j. test_time_iai env start j - start < 1000 * max_wait"
  show ?case
  proof (cases "now - start < 1000 * max_wait")
    case False
    have "\<not> (\<exists>j\<ge>k. ?in j \<and> ?ch j)"
    proof
      assume "\<exists>j\<ge>k. ?in j \<and> ?ch j"
      then obtain j where j: "k \<le> j" "?in j" by blast
      from test_time_iai_mono [OF j(1), of env start] j(2) False 1(2) show False by simp
    qed
    then show ?thesis using False
      by (simp add: thank_you_loop.simps [of max_wait start now])
  next
    case True
    obtain cost ob where e: "env k = (cost, ob)" by (cases "env k")
    show ?thesis
    proof (cases "thank_you_found ob")
      case ch: True
      have "\<exists>j\<ge>k. ?in j \<and> ?ch j"
        using True ch e 1(2) by (intro exI [of _ k]) simp
      then show ?thesis using True ch e
        by (simp add: thank_you_loop.simps [of max_wait start now])
    next
      case ch: False
      have next_t: "now + int cost + 1000 = test_time_iai env start (Suc k)"
        using 1(2) e by simp
      have IH: "fst (thank_you_loop max_wait start (now + int cost + 1000) env (Suc k))
                 = (\<exists>j\<ge>Suc k. ?in j \<and> ?ch j)"
        by (rule 1(1) [OF True refl e [symmetric] ch next_t])
      have "(\<exists>j\<ge>Suc k. ?in j \<and> ?ch j) = (\<exists>j\<ge>k. ?in j \<and> ?ch j)"
        using ch e by (metis Suc_leD Suc_leI le_neq_implies_less snd_conv)
      then show ?thesis using True ch e IH
        by (simp add: thank_you_loop.simps [of max_wait start now])
    qed
  qed
qed

lemma thank_you_wait_timing:
  "now = test_time_iai env start k \<Longrightarrow>
   thank_you_loop max_wait start now env k = (r, t, n) \<Longrightarrow>
   k \<le> n \<and> t \<le> test_time_iai env start n
   \<and> (k < n \<longrightarrow> test_time_iai env start (n - 1) - start < 1000 * max_wait)
   \<and> (n = k \<longrightarrow> \<not> r \<and> t = now \<and> \<not> now - start < 1000 * max_wait)"
proof (induction max_wait start now env k rule: thank_you_loop.induct)
  case (1 max_wait start now env k)
  show ?case
  proof (cases "now - start < 1000 * max_wait")
    case False
    have "r = False \<and> t = now \<and> n = k"
      using 1(3) False by (simp add: thank_you_loop.simps [of max_wait start now])
    then show ?thesis using 1(2) False by simp
  next
    case True
    obtain cost ob where e: "env k = (cost, ob)" by (cases "env k")
    show ?thesis
    proof (cases "thank_you_found ob")
      case ch: True
      have "r = True \<and> t = now + int cost \<and> n = Suc k"
        using 1(3) True e ch
        by (simp add: thank_you_loop.simps [of max_wait start now])
      then show ?thesis using 1(2) True e by simp
    next
      case ch: False
      have next_t: "now + int cost + 1000 = test_time_iai env start (Suc k)"
        using 1(2) e by simp
      have rec: "thank_you_loop max_wait start (now + int cost + 1000) env (Suc k)
                   = (r, t, n)"
        using 1(3) True e ch
        by (simp add: thank_you_loop.simps [of max_wait start now])
      have IH: "Suc k \<le> n \<and> t \<le> test_time_iai env start n
                \<and> (Suc k < n \<longrightarrow> test_time_iai env start (n - 1) - start < 1000 * max_wait)
                \<and> (n = Suc k \<longrightarrow> \<not> r \<and> t = now + int cost + 1000
                                 \<and> \<not> now + int cost + 1000 - start < 1000 * max_wait)"
        by (rule 1(1) [OF True refl e [symmetric] ch next_t rec])
      show ?thesis
      proof (cases "n = Suc k")
        case True
        then show ?thesis using IH \<open>now - start < 1000 * max_wait\<close> 1(2) by simp
      next
        case False
        then show ?thesis using IH by auto
      qed
    qed
  qed
qed

lemma wait_for_thank_you_redirect_outcome:
  "fst (wait_for_thank_you_redirect main_handle max_wait start env ret) =
     (if fst (thank_you_loop max_wait start start env 0) then Inr True
      else if or_empty main_handle = [] then Inr False
      else (case handles_then ret of Inl e \<Rightarrow> Inl e | Inr hs \<Rightarrow> Inr False))"
  by (simp add: wait_for_thank_you_redirect_def split: prod.splits sum.splits)

lemma wait_for_thank_you_redirect_parts:
  assumes "wait_for_thank_you_redirect main_handle max_wait start env ret = (r, t, n, sw)"
  obtains found t0 where "thank_you_loop max_wait start start env 0 = (found, t0, n)"
    and "t0 \<le> t" and "t \<le> t0 + int (back_cost ret)" and "r = Inr True \<longleftrightarrow> found"
proof -
  obtain found t0 n0 where l: "thank_you_loop max_wait start start env 0 = (found, t0, n0)"
    by (cases "thank_you_loop max_wait start start env 0")
  have "n0 = n \<and> t0 \<le> t \<and> t \<le> t0 + int (back_cost ret) \<and> (r = Inr True \<longleftrightarrow> found)"
    using assms l
    by (auto simp: wait_for_thank_you_redirect_def split: if_splits sum.splits)
  then show ?thesis using l that by blast
qed

lemma get_pagination_state_page_showing:
  "get_pagination_state (page_showing p c f) = (p, strip c, f)"
  by (simp add: get_pagination_state_def page_showing_def current_page_label_def
        outof_text_def first_job_href_def stripped_text_def strip_def)

text \<open>
  C1. For every before-snapshot and every sequence of pages and snapshot durations: the
  wait returns \<open>True\<close> exactly when some poll whose loop test falls before the 20 s
  budget expires observes a signal (page label, counter text or first job link) that is
  non-empty in the before-snapshot and in that poll's snapshot and differs between the
  two. The other two signals play no part, so they may be unchanged or empty; and
  a snapshot whose signals are each equal to the before-snapshot's or empty on one side
  never makes the wait converge.
\<close>

theorem convergence_wait_result:
  "fst (next_page_wait start start before_state env 0)
     \<longleftrightarrow> (\<exists>k. test_time env start k - start < 20000
              \<and> (\<exists>i<3. signals before_state ! i \<noteq> []
                      \<and> signals (get_pagination_state (snd (env k))) ! i \<noteq> []
                      \<and> signals (get_pagination_state (snd (env k))) ! i
                          \<noteq> signals before_state ! i))"
  using next_page_wait_result [of start env start 0 before_state]
  by (simp add: state_changed_signals)

text \<open>
  Three signals of which only the first job link changes, at the third poll, while the
  counter has disappeared: the wait converges at that poll.
\<close>

theorem convergence_wait_result_witness:
  "next_page_wait 0 0 (''1'', ''1-20 of 40'', ''/job/a'') first_job_changes 0 = (True, 1800, 3)
   \<and> get_pagination_state (snd (first_job_changes 2)) = (''1'', [], ''/job/b'')
   \<and> test_time first_job_changes 0 2 = 1200"
  using convergence_wait_result [of 0 "(''1'', ''1-20 of 40'', ''/job/a'')" first_job_changes]
  by (simp add: next_page_wait.simps first_job_changes_def get_pagination_state_page_showing
        strip_def is_space_def state_changed_def numeral_2_eq_2)

text \<open>
  C2 (as amended). With the counter empty in the before-snapshot and the page label and
  first job link unchanged, no after-snapshot counts as changed, whatever its counter
  shows (populated or empty); a wait all of whose polls observe such a snapshot
  returns \<open>False\<close>. A signal's first appearance is not a change.
\<close>

theorem first_appearance_is_not_a_change:
  "\<not> state_changed (p, [], f) (p, c, f)
   \<and> ((\<forall>k. get_pagination_state (snd (env k)) = (p, c, f))
        \<longrightarrow> fst (next_page_wait start start (p, [], f) env 0) = False)"
proof -
  have no: "\<not> state_changed (p, [], f) (p, c, f)"
    by (simp add: state_changed_def)
  then show ?thesis
    using next_page_wait_result [of start env start 0 "(p, [], f)"] by auto
qed

text \<open>The scenario of the specification, observed at every poll.\<close>

theorem first_appearance_is_not_a_change_witness:
  "(\<forall>k. get_pagination_state (snd (counter_appears k)) = (''1'', ''1-20 of 40'', ''x''))
   \<and> fst (next_page_wait 0 0 (''1'', [], ''x'') counter_appears 0) = False"
  using first_appearance_is_not_a_change [of "''1''" "''x''" "''1-20 of 40''" counter_appears 0]
  by (simp add: counter_appears_def get_pagination_state_page_showing strip_def is_space_def)

text \<open>
  C2 as stated fails: before \<open>("1", "", "x")\<close>, after \<open>("1", "1-20 of 40", "x")\<close> at
  every poll, snapshots taking no time. The wait makes its 34 polls and returns
  \<open>False\<close> at 20.4 s.
\<close>

theorem counter_appears_times_out:
  "next_page_wait 0 0 (''1'', [], ''x'') counter_appears 0 = (False, 20400, 34)
   \<and> get_pagination_state (snd (counter_appears 0)) = (''1'', ''1-20 of 40'', ''x'')"
  by (simp add: next_page_wait.simps counter_appears_def get_pagination_state_page_showing
        strip_def is_space_def state_changed_def)

text \<open>
  C5 (as amended). Both waits are total functions (the definitions of their loops carry
  the termination proofs: every poll that does not return advances the clock by the
  sleep). The Nvidia wait makes between 1 and 34 polls, the IAI wait at most
  \<open>max_wait\<close> polls (none when \<open>max_wait \<le> 0\<close>). If no poll whose loop test falls
  inside the budget observes a change, the Nvidia wait returns \<open>False\<close>; if none
  observes the thank-you URL, the IAI wait does not return \<open>True\<close>, and it returns
  \<open>False\<close> when no list tab is known or the reading of \<^verbatim>\<open>window_handles\<close> after its
  loop returns. The last poll starts before the budget expires, so the Nvidia wait ends
  less than budget + one sleep + the time the driver calls of that last poll take after
  it started, and the IAI wait less than budget + one sleep + the time of the last poll's
  driver calls + the time of the driver calls after its loop: within budget + one poll
  interval only when those calls take no time.
\<close>

theorem waits_end_after_last_poll:
  assumes "next_page_wait start start before_state env 0 = (r, t, n)"
      and "wait_for_thank_you_redirect main_handle max_wait start' env' ret
             = (r', t', n', on_main)"
  shows "1 \<le> n \<and> n \<le> 34
         \<and> t - start < 20000 + 600 + int (fst (env (n - 1)))
         \<and> ((\<forall>k. test_time env start k - start < 20000
                  \<longrightarrow> \<not> state_changed before_state (get_pagination_state (snd (env k))))
              \<longrightarrow> \<not> r)
         \<and> int n' \<le> max 0 max_wait
         \<and> (n' = 0 \<longrightarrow> t' - start' \<le> int (back_cost ret))
         \<and> (0 < n' \<longrightarrow> t' - start' < 1000 * max_wait + 1000 + int (fst (env' (n' - 1)))
                                      + int (back_cost ret))
         \<and> ((\<forall>k. test_time_iai env' start' k - start' < 1000 * max_wait
                  \<longrightarrow> \<not> thank_you_found (snd (env' k)))
              \<longrightarrow> r' \<noteq> Inr True
                  \<and> (or_empty main_handle = [] \<or> returns (handles_then ret)
                       \<longrightarrow> r' = Inr False))"
proof -
  have nv: "0 \<le> n \<and> t = test_time env start n
            \<and> (0 < n \<longrightarrow> test_time env start (n - 1) - start < 20000)
            \<and> (n = 0 \<longrightarrow> \<not> r \<and> \<not> start - start < 20000)"
    using next_page_wait_timing [of start env start 0 before_state r t n] assms(1) by simp
  then have pos: "0 < n" by auto
  then have last: "test_time env start (n - 1) - start < 20000" using nv by simp
  have "600 * int (n - 1) < 20000"
    using test_time_lower [of start "n - 1" env] last by simp
  then have n34: "n \<le> 34" by simp
  have "test_time env start n = test_time env start (n - 1) + 600 + int (fst (env (n - 1)))"
    using pos by (cases n) simp_all
  then have bound: "t - start < 20000 + 600 + int (fst (env (n - 1)))"
    using nv last by simp
  have res: "(\<forall>k. test_time env start k - start < 20000
                  \<longrightarrow> \<not> state_changed before_state (get_pagination_state (snd (env k))))
              \<longrightarrow> \<not> r"
    using next_page_wait_result [of start env start 0 before_state] assms(1) by auto
  obtain found t0 where l: "thank_you_loop max_wait start' start' env' 0 = (found, t0, n')"
    and t0: "t0 \<le> t'" "t' \<le> t0 + int (back_cost ret)" and rf: "r' = Inr True \<longleftrightarrow> found"
    using assms(2) by (rule wait_for_thank_you_redirect_parts)
  have iai: "0 \<le> n' \<and> t0 \<le> test_time_iai env' start' n'
            \<and> (0 < n' \<longrightarrow> test_time_iai env' start' (n' - 1) - start' < 1000 * max_wait)
            \<and> (n' = 0 \<longrightarrow> \<not> found \<and> t0 = start' \<and> \<not> start' - start' < 1000 * max_wait)"
    using thank_you_wait_timing [of start' env' start' 0 max_wait found t0 n'] l by simp
  have polls: "int n' \<le> max 0 max_wait"
  proof (cases "n' = 0")
    case True
    then show ?thesis by simp
  next
    case False
    then have "test_time_iai env' start' (n' - 1) - start' < 1000 * max_wait" using iai by simp
    then have "1000 * int (n' - 1) < 1000 * max_wait"
      using test_time_iai_lower [of start' "n' - 1" env'] by simp
    then show ?thesis using False by simp
  qed
  have none: "n' = 0 \<longrightarrow> t' - start' \<le> int (back_cost ret)"
    using iai t0 by auto
  have bound': "0 < n' \<longrightarrow> t' - start' < 1000 * max_wait + 1000 + int (fst (env' (n' - 1)))
                                        + int (back_cost ret)"
  proof
    assume p: "0 < n'"
    then have "test_time_iai env' start' n'
                 = test_time_iai env' start' (n' - 1) + 1000 + int (fst (env' (n' - 1)))"
      by (cases n') simp_all
    then show "t' - start' < 1000 * max_wait + 1000 + int (fst (env' (n' - 1)))
                             + int (back_cost ret)"
      using iai p t0 by simp
  qed
  have res': "(\<forall>k. test_time_iai env' start' k - start' < 1000 * max_wait
                  \<longrightarrow> \<not> thank_you_found (snd (env' k)))
              \<longrightarrow> r' \<noteq> Inr True
                  \<and> (or_empty main_handle = [] \<or> returns (handles_then ret)
                       \<longrightarrow> r' = Inr False)"
  proof
    assume "\<forall>k. test_time_iai env' start' k - start' < 1000 * max_wait
                  \<longrightarrow> \<not> thank_you_found (snd (env' k))"
    then have nf: "\<not> found"
      using thank_you_wait_result [of start' env' start' 0 max_wait] l by auto
    have out: "r' = (if or_empty main_handle = [] then Inr False
                     else (case handles_then ret of Inl e \<Rightarrow> Inl e | Inr hs \<Rightarrow> Inr False))"
      using wait_for_thank_you_redirect_outcome [of main_handle max_wait start' env' ret]
            assms(2) l nf by simp
    show "r' \<noteq> Inr True
            \<and> (or_empty main_handle = [] \<or> returns (handles_then ret) \<longrightarrow> r' = Inr False)"
      using out by (auto simp: returns_def split: sum.splits)
  qed
  show ?thesis using pos n34 bound res polls none bound' res' by simp
qed

text \<open>
  An unchanging page with instantaneous snapshots; and tabs that never reach the
  thank-you page, with 200 ms per poll, a budget of 12 s and 300 ms for going back to
  the list tab.
\<close>

theorem waits_end_after_last_poll_witness:
  "next_page_wait 0 0 (''1'', [], ''x'') counter_appears 0 = (False, 20400, 34)
   \<and> wait_for_thank_you_redirect (Some ''list'') 12 0 no_redirect list_tab_open
       = (Inr False, 12300, 10, True)
   \<and> fst (counter_appears 33) = 0 \<and> fst (no_redirect 9) = 200
   \<and> back_cost list_tab_open = 300"
proof -
  have a: "next_page_wait 0 0 (''1'', [], ''x'') counter_appears 0 = (False, 20400, 34)"
    by (simp add: next_page_wait.simps counter_appears_def get_pagination_state_page_showing
        strip_def is_space_def state_changed_def)
  have b: "wait_for_thank_you_redirect (Some ''list'') 12 0 no_redirect list_tab_open
             = (Inr False, 12300, 10, True)"
    by (simp add: wait_for_thank_you_redirect_def thank_you_loop.simps no_redirect_def
          thank_you_found_def THANK_YOU_PATH_def or_empty_def on_thank_you_def
          list_tab_open_def returns_def)
  show ?thesis
    using waits_end_after_last_poll [OF a b] a b
    by (simp add: counter_appears_def no_redirect_def list_tab_open_def)
qed

text \<open>
  C5 as stated fails when a snapshot takes one second: the thirteenth poll starts at
  19.2 s, inside the budget, and the wait returns at 20.8 s, later than 20 s + 0.6 s.
\<close>

theorem slow_snapshots_exceed_budget_plus_poll:
  "next_page_wait 0 0 (''1'', [], ''x'') slow_page 0 = (False, 20800, 13)
   \<and> \<not> fst (snd (next_page_wait 0 0 (''1'', [], ''x'') slow_page 0)) - 0 \<le> 20000 + 600"
  by (simp add: next_page_wait.simps slow_page_def get_pagination_state_page_showing
        strip_def is_space_def state_changed_def)

subsection \<open>Locator lists and error values\<close>

lemma until_first_take:
  "i < length xs \<Longrightarrow> P (xs ! i) \<Longrightarrow> (\<forall>j<i. \<not> P (xs ! j)) \<Longrightarrow>
   until_first P xs = take (Suc i) xs"
proof (induction xs arbitrary: i)
  case Nil
  then show ?case by simp
next
  case (Cons x xs)
  show ?case
  proof (cases i)
    case 0
    then show ?thesis using Cons.prems by simp
  next
    case (Suc m)
    have "\<not> P x" using Cons.prems(3) Suc by auto
    moreover have "until_first P xs = take (Suc m) xs"
      using Cons.prems Suc by (intro Cons.IH) auto
    ultimately show ?thesis using Suc by simp
  qed
qed

lemma list_ex_nth: "i < length xs \<Longrightarrow> P (xs ! i) \<Longrightarrow> list_ex P xs"
  by (auto simp: list_ex_iff)

text \<open>
  C6 (as amended). Locators are tried in list order and the loop stops at the first
  success. In the sign-in loop a locator succeeds when the wait finds an element and the
  element is displayed: if the \<open>i\<close>-th locator does and every earlier one timed out or
  found a hidden element, its element is the result and exactly \<open>i + 1\<close> locators were
  tried; if every locator times out or finds a hidden element, all are tried and
  \<^verbatim>\<open>NoSuchElementException\<close> is raised. In the chain
  \<^verbatim>\<open>any(safe_click(...) for loc in ...)\<close> a locator succeeds when the wait yields a
  clickable element and one of the three click stages succeeds on it: the chain is
  \<open>True\<close> with exactly \<open>k + 1\<close> locators tried when the \<open>k\<close>-th is the first such
  locator, and \<open>False\<close> with all locators tried when there is none. A locator that
  resolves to an element on which every click stage fails is not a success.
\<close>

theorem locator_lists_first_success:
  "(i < length ls \<and> ls ! i = Inr (el, Inr True) \<and> (\<forall>j<i. quiet (ls ! j))
      \<longrightarrow> find_sign_in ls = (Inr el, Suc i))
   \<and> ((\<forall>w\<in>set ls. quiet w) \<longrightarrow> find_sign_in ls = (Inl NoSuchElementException, length ls))
   \<and> (clicks w \<longleftrightarrow> (\<exists>e. w = Inr e \<and> fst (robust_click e)))
   \<and> safe_click w = Inr (clicks w)
   \<and> (k < length ws \<and> clicks (ws ! k) \<and> (\<forall>j<k. \<not> clicks (ws ! j))
      \<longrightarrow> any_safe_click ws = (True, Suc k))
   \<and> ((\<forall>w\<in>set ws. \<not> clicks w) \<longrightarrow> any_safe_click ws = (False, length ws))"
proof -
  have a: "find_sign_in ls = (Inr el, Suc i)"
    if "i < length ls" "ls ! i = Inr (el, Inr True)" "\<forall>j<i. quiet (ls ! j)"
  proof -
    have nq: "\<not> quiet (ls ! i)" using that(2) by (simp add: quiet_simps)
    have tk: "takeWhile quiet ls = take i ls"
      using that nq by (intro takeWhile_eq_take_P_nth) auto
    then have len: "length (takeWhile quiet ls) = i" using that(1) by simp
    have "dropWhile quiet ls = drop i ls"
      using len dropWhile_eq_drop [of quiet ls] by simp
    then have "dropWhile quiet ls = ls ! i # drop (Suc i) ls"
      using that(1) by (simp add: Cons_nth_drop_Suc)
    then show ?thesis using that(2) len
      by (simp add: find_sign_in_eq sign_in_outcome_simps)
  qed
  have b: "find_sign_in ls = (Inl NoSuchElementException, length ls)" if "\<forall>w\<in>set ls. quiet w"
  proof -
    have dn: "dropWhile quiet ls = []" using that by simp
    show ?thesis unfolding find_sign_in_eq dn by simp
  qed
  have c: "clicks w \<longleftrightarrow> (\<exists>e. w = Inr e \<and> fst (robust_click e))"
    by (cases w) (simp_all add: clicks_def fst_robust_click)
  have d: "any_safe_click ws = (True, Suc k)"
    if "k < length ws" "clicks (ws ! k)" "\<forall>j<k. \<not> clicks (ws ! j)"
    using that until_first_take [of k ws clicks] list_ex_nth [of k ws clicks]
    by (simp add: any_safe_click_eq)
  have e: "any_safe_click ws = (False, length ws)" if "\<forall>w\<in>set ws. \<not> clicks w"
  proof -
    have "\<not> list_ex clicks ws" using that by (simp add: list_ex_iff)
    then show ?thesis by (simp add: any_safe_click_eq until_first_none)
  qed
  show ?thesis using a b c d e safe_click_eq by blast
qed

text \<open>
  Lists where only a later entry succeeds, and lists where none does, for both loops.
\<close>

theorem locator_lists_first_success_witness:
  "find_sign_in hidden_then_shown = (Inr 8, 3)
   \<and> find_sign_in [Inl TimeoutException, Inr (7, Inr False)] = (Inl NoSuchElementException, 2)
   \<and> any_safe_click [Inl TimeoutException, Inr overlaid, Inr overlaid] = (True, 2)
   \<and> any_safe_click [Inl TimeoutException, Inr stuck] = (False, 2)"
  using locator_lists_first_success [of 2 hidden_then_shown 8 "Inr overlaid" 1
          "[Inl TimeoutException, Inr overlaid, Inr overlaid]"]
        locator_lists_first_success [of 0 "[Inl TimeoutException, Inr (7, Inr False)]" 0
          "Inr stuck" 0 "[Inl TimeoutException, Inr stuck]"]
  by (simp add: hidden_then_shown_def find_sign_in_def safe_click_def safe_click_try_def
        robust_click_def third_stage_def overlaid_def stuck_def)

text \<open>
  C6 as stated fails on the apply chain: the first locator resolves to an element on
  which every click stage raises. The chain goes on to the second locator; and when the
  first locator is the only one, the chain reports failure although it resolved.
\<close>

theorem resolved_locator_is_not_the_last_tried:
  "any_safe_click [Inr stuck, Inr overlaid] = (True, 2)
   \<and> any_safe_click [Inr stuck] = (False, 1)"
  by (simp add: safe_click_def safe_click_try_def robust_click_def third_stage_def
        overlaid_def stuck_def)

text \<open>
  C7 (as amended). \<^verbatim>\<open>safe_click\<close> never raises: it returns \<open>False\<close> when the wait
  raises (target not found) and when every click stage fails (interaction blocked).
  \<^verbatim>\<open>safe_find\<close> returns \<open>None\<close> on a timeout. \<^verbatim>\<open>robust_click\<close> returns \<open>False\<close>
  exactly when its three stages fail. The Nvidia wait returns \<open>False\<close> when the budget
  expires without a change; so does the IAI wait when no list tab is known or the
  reading of \<^verbatim>\<open>window_handles\<close> after its loop returns. The frame search is the
  exception: it either returns or raises \<^verbatim>\<open>NoSuchElementException\<close> to its caller;
  it raises exactly when no context up to depth 2 holds the target, and it does so
  after a last \<^verbatim>\<open>default_content\<close>, with the driver in the top document.
\<close>

theorem values_not_exceptions_but_frame_search:
  "safe_click w = Inr (clicks w)
   \<and> safe_find (Inl TimeoutException) = (Inr None :: 'a option result)
   \<and> (\<not> fst (robust_click el) \<longleftrightarrow> \<not> stage1 el \<and> \<not> stage2 el \<and> \<not> stage3 el)
   \<and> ((\<forall>k. test_time env start k - start < 20000
            \<longrightarrow> \<not> state_changed before_state (get_pagination_state (snd (env k))))
        \<longrightarrow> fst (next_page_wait start start before_state env 0) = False)
   \<and> ((\<forall>k. test_time_iai env' start' k - start' < 1000 * max_wait
            \<longrightarrow> \<not> thank_you_found (snd (env' k)))
        \<and> (or_empty main_handle = [] \<or> returns (handles_then ret))
        \<longrightarrow> fst (wait_for_thank_you_redirect main_handle max_wait start' env' ret)
              = Inr False)
   \<and> (\<not> (\<exists>p. length p \<le> 2 \<and> target_at page p)
        \<longleftrightarrow> fst (switch_to_frame_containing page d) = Inl NoSuchElementException)
   \<and> (fst (switch_to_frame_containing page d) = Inr ()
        \<or> fst (switch_to_frame_containing page d) = Inl NoSuchElementException)
   \<and> (fst (switch_to_frame_containing page d) = Inl NoSuchElementException
        \<longrightarrow> ctx (snd (switch_to_frame_containing page d)) = []
            \<and> last (cmds (snd (switch_to_frame_containing page d))) = Default_content)"
proof -
  have ex: "list_ex (target_at page) (preorder2 page) \<longleftrightarrow> (\<exists>p. length p \<le> 2 \<and> target_at page p)"
  proof
    assume "list_ex (target_at page) (preorder2 page)"
    then obtain p where "p \<in> set (preorder2 page)" "target_at page p"
      by (auto simp: list_ex_iff)
    then show "\<exists>p. length p \<le> 2 \<and> target_at page p" using frame_at_Some_iff2 by blast
  next
    assume "\<exists>p. length p \<le> 2 \<and> target_at page p"
    then obtain p where p: "length p \<le> 2" "target_at page p" by blast
    then have "frame_at page p \<noteq> None" by (auto simp: target_at_def split: option.splits)
    then have "p \<in> set (preorder2 page)" using p frame_at_Some_iff2 by blast
    then show "list_ex (target_at page) (preorder2 page)" using p by (auto simp: list_ex_iff)
  qed
  have fs: "(\<not> (\<exists>p. length p \<le> 2 \<and> target_at page p))
             = (fst (switch_to_frame_containing page d) = Inl NoSuchElementException)"
    using ex by (simp add: switch_to_frame_containing_eq)
  have two: "fst (switch_to_frame_containing page d) = Inr ()
             \<or> fst (switch_to_frame_containing page d) = Inl NoSuchElementException"
    by (simp add: switch_to_frame_containing_eq)
  have back_home: "fst (switch_to_frame_containing page d) = Inl NoSuchElementException
        \<longrightarrow> ctx (snd (switch_to_frame_containing page d)) = []
            \<and> last (cmds (snd (switch_to_frame_containing page d))) = Default_content"
    by (simp add: switch_to_frame_containing_eq default_content_def)
  have w1: "(\<forall>k. test_time env start k - start < 20000
            \<longrightarrow> \<not> state_changed before_state (get_pagination_state (snd (env k))))
        \<longrightarrow> fst (next_page_wait start start before_state env 0) = False"
    using next_page_wait_result [of start env start 0 before_state] by auto
  have w2: "(\<forall>k. test_time_iai env' start' k - start' < 1000 * max_wait
            \<longrightarrow> \<not> thank_you_found (snd (env' k)))
        \<and> (or_empty main_handle = [] \<or> returns (handles_then ret))
        \<longrightarrow> fst (wait_for_thank_you_redirect main_handle max_wait start' env' ret)
              = Inr False"
  proof
    assume a: "(\<forall>k. test_time_iai env' start' k - start' < 1000 * max_wait
            \<longrightarrow> \<not> thank_you_found (snd (env' k)))
        \<and> (or_empty main_handle = [] \<or> returns (handles_then ret))"
    then have "\<not> fst (thank_you_loop max_wait start' start' env' 0)"
      using thank_you_wait_result [of start' env' start' 0 max_wait] by auto
    then show "fst (wait_for_thank_you_redirect main_handle max_wait start' env' ret)
                 = Inr False"
      using a by (auto simp: wait_for_thank_you_redirect_outcome returns_def split: sum.splits)
  qed
  show ?thesis
    using fs two back_home w1 w2 by (simp add: safe_click_eq safe_find_def fst_robust_click)
qed

text \<open>
  A wait that times out, an element on which nothing works, two waits that expire, and a
  page without the target.
\<close>

theorem values_not_exceptions_but_frame_search_witness:
  "safe_click (Inl TimeoutException) = Inr False
   \<and> safe_click (Inr stuck) = Inr False
   \<and> fst (next_page_wait 0 0 (''1'', [], ''x'') counter_appears 0) = False
   \<and> fst (wait_for_thank_you_redirect (Some ''list'') 12 0 no_redirect list_tab_open)
       = Inr False
   \<and> switch_to_frame_containing (Frame False [Frame False []]) fresh
       = (Inl NoSuchElementException,
          \<lparr>ctx = [],
             cmds = [Default_content, Wait_presence [],
                     Default_content, Switch_frame 0, Wait_presence [0], Default_content]\<rparr>)"
  using values_not_exceptions_but_frame_search
          [where w = "Inl TimeoutException" and el = stuck and env = counter_appears
             and start = 0 and before_state = "(''1'', [], ''x'')" and env' = no_redirect
             and start' = 0 and max_wait = 12 and main_handle = "Some ''list''"
             and ret = list_tab_open and page = "Frame False [Frame False []]" and d = fresh]
        values_not_exceptions_but_frame_search
          [where w = "Inr stuck" and el = stuck and env = counter_appears
             and start = 0 and before_state = "(''1'', [], ''x'')" and env' = no_redirect
             and start' = 0 and max_wait = 12 and main_handle = "Some ''list''"
             and ret = list_tab_open and page = "Frame False [Frame False []]" and d = fresh]
  by (simp add: clicks_def stuck_def stage1_def stage2_def stage3_def
        safe_click_def safe_click_try_def robust_click_def third_stage_def
        next_page_wait.simps counter_appears_def get_pagination_state_page_showing
        strip_def is_space_def state_changed_def
        wait_for_thank_you_redirect_def thank_you_loop.simps no_redirect_def
        thank_you_found_def list_tab_open_def returns_def
        THANK_YOU_PATH_def or_empty_def on_thank_you_def
        switch_to_frame_containing_def fresh_def wait_presence_def
        default_content_def switch_frame_def find_iframes_def target_at_def)

text \<open>
  C7 as stated fails for the frame search: on a page without frames and without the
  target, \<^verbatim>\<open>switch_to_frame_containing\<close> raises after restoring the top document.
\<close>

theorem frame_search_raises:
  "switch_to_frame_containing (Frame False []) fresh
     = (Inl NoSuchElementException,
        \<lparr>ctx = [], cmds = [Default_content, Wait_presence [], Default_content]\<rparr>)"
  by (simp add: switch_to_frame_containing_def fresh_def wait_presence_def
        default_content_def find_iframes_def target_at_def)

text \<open>
  What the IAI wait does when the browser is gone at the end of its budget: the reading
  of \<^verbatim>\<open>window_handles\<close> after the loop raises, and the exception leaves the function.
\<close>

theorem thank_you_wait_raises_after_loop:
  "wait_for_thank_you_redirect (Some ''list'') 12 0 no_redirect browser_gone
     = (Inl OtherException, 12300, 10, False)"
  by (simp add: wait_for_thank_you_redirect_def thank_you_loop.simps no_redirect_def
        thank_you_found_def THANK_YOU_PATH_def or_empty_def on_thank_you_def
        browser_gone_def)

subsection \<open>The CAPTCHA pause\<close>

lemma recaptcha_on_thank_you:
  "page_url pg = Inr u \<Longrightarrow> contains THANK_YOU_PATH (or_empty u) \<Longrightarrow> \<not> recaptcha_visible pg"
  by (simp add: recaptcha_visible_def)

lemma submit_click_no_captcha: "Captcha_pause \<notin> set (submit_click b)"
  by (simp add: submit_click_def split: sum.splits)

lemma wait_after_click_captcha:
  "Captcha_pause \<in> set (snd (wait_after_click E wait_total)) \<longleftrightarrow>
     fst (wait_for_thank_you_redirect (main_tab E) (min 12 wait_total)
            (first_start E) (first_polls E) (first_back E)) = Inr False
     \<and> recaptcha_visible (page_after_wait E)"
  by (simp add: wait_after_click_def Let_def split: sum.splits bool.splits)

lemma submit_captcha_pause:
  assumes "submit_with_captcha_and_wait_thank_you E wait_total = (r, evs)"
      and "Captcha_pause \<in> set evs"
  shows "Captcha_pause \<in> set (snd (wait_after_click E wait_total))"
proof (cases "safe_find (submit_btn E)")
  case (Inl e)
  then show ?thesis using assms by (simp add: submit_with_captcha_and_wait_thank_you_def)
next
  case (Inr found)
  show ?thesis
  proof (cases found)
    case None
    then show ?thesis using assms Inr
      by (auto simp: submit_with_captcha_and_wait_thank_you_def)
  next
    case (Some b)
    then show ?thesis using assms Inr submit_click_no_captcha [of b]
      by (auto simp: submit_with_captcha_and_wait_thank_you_def Let_def split_beta
               split: sum.splits exn.splits if_splits)
  qed
qed

text \<open>
  C10. Whenever the URL of the current tab contains \<^verbatim>\<open>/thank-you/\<close>,
  \<^verbatim>\<open>_recaptcha_visible\<close> returns \<open>False\<close>, whatever reCAPTCHA frames or widgets the page
  holds. Hence in every run of the submit flow, whether it returns or raises: if the tab
  is on the thank-you page when the flow asks (line 586), the flow does not pause for a
  CAPTCHA; a CAPTCHA pause happens only when the first wait for the redirect has
  returned \<open>False\<close> and \<^verbatim>\<open>_recaptcha_visible\<close> holds of the page then shown.
\<close>

theorem no_captcha_pause_on_thank_you:
  "(page_url pg = Inr u \<and> contains THANK_YOU_PATH (or_empty u) \<longrightarrow> \<not> recaptcha_visible pg)
   \<and> (submit_with_captcha_and_wait_thank_you E wait_total = (r, evs)
        \<and> page_url (page_after_wait E) = Inr u' \<and> contains THANK_YOU_PATH (or_empty u')
       \<longrightarrow> Captcha_pause \<notin> set evs)
   \<and> (submit_with_captcha_and_wait_thank_you E wait_total = (r, evs)
        \<and> Captcha_pause \<in> set evs
       \<longrightarrow> recaptcha_visible (page_after_wait E)
           \<and> fst (wait_for_thank_you_redirect (main_tab E) (min 12 wait_total)
                    (first_start E) (first_polls E) (first_back E)) = Inr False
           \<and> \<not> fst (thank_you_loop (min 12 wait_total)
                      (first_start E) (first_start E) (first_polls E) 0))"
proof -
  have first: "\<not> fst (thank_you_loop (min 12 wait_total)
                         (first_start E) (first_start E) (first_polls E) 0)"
    if "fst (wait_for_thank_you_redirect (main_tab E) (min 12 wait_total)
              (first_start E) (first_polls E) (first_back E)) = Inr False"
    using that by (auto simp: wait_for_thank_you_redirect_outcome split: if_splits)
  show ?thesis
    using recaptcha_on_thank_you submit_captcha_pause wait_after_click_captcha first by blast
qed

text \<open>
  The late redirect: no pause, and the second wait finds the thank-you page.
\<close>

theorem no_captcha_pause_on_thank_you_witness:
  "\<not> recaptcha_visible thank_you_with_widget
   \<and> recaptcha_visible form_with_widget
   \<and> submit_with_captcha_and_wait_thank_you late_redirect 45 = (Inr True, [])
   \<and> fst (wait_for_thank_you_redirect (Some ''list'') 12 0 no_redirect list_tab_open)
       = Inr False"
  using no_captcha_pause_on_thank_you
          [where pg = thank_you_with_widget
             and u = "Some ''https://jobs.iai.co.il/thank-you/''"
             and E = late_redirect and wait_total = 45 and r = "Inr True" and evs = "[]"
             and u' = "Some ''https://jobs.iai.co.il/thank-you/''"]
  by (simp add: recaptcha_visible_def thank_you_with_widget_def form_with_widget_def
        THANK_YOU_PATH_def or_empty_def submit_with_captcha_and_wait_thank_you_def
        late_redirect_def safe_find_def wait_after_click_def submit_click_def overlaid_def
        wait_for_thank_you_redirect_def thank_you_loop.simps no_redirect_def
        thank_you_tabs_def list_tab_open_def returns_def
        thank_you_found_def on_thank_you_def)

subsection \<open>The next list URL\<close>

lemmas plain_defs = plain_urllib_def plain_urlparse_def plain_parse_qs_def plain_int_def
  plain_urlunparse_def split_once_def split_all_def add_pair_def BASE_LIST_URL_def


lemma first_values_map_of:
  "first_values qs = Inr d \<Longrightarrow>
   map_of d k = (case map_of qs k of None \<Rightarrow> None | Some vs \<Rightarrow> Some (hd vs))"
proof (induction qs arbitrary: d rule: first_values.induct)
  case 1
  then show ?case by simp
next
  case (2 k' rest)
  then show ?case by simp
next
  case (3 k' v vs rest)
  then show ?case by (auto split: sum.splits)
qed

lemma first_values_pg:
  "first_values (AList.update ''pg'' [s] qs) = Inr d \<Longrightarrow> map_of d ''pg'' = Some s"
  using first_values_map_of [of "AList.update ''pg'' [s] qs" d "''pg''"]
  by (simp add: update_conv')

lemma list_query_Some:
  "list_query L url = Some (parsed, qs) \<longleftrightarrow>
     (\<exists>base. urlparse L url = Inr parsed \<and> urlparse L BASE_LIST_URL = Inr base
        \<and> netloc parsed = netloc base \<and> path parsed = ''/jobs/''
        \<and> parse_qs L (query parsed) = Inr qs
        \<and> (\<exists>rest. map_of qs ''pr'' = Some (''41'' # rest)))"
  by (auto simp: list_query_def split: sum.splits option.splits list.splits if_splits)

lemma next_pg_Some:
  "next_pg L qs = Some n \<longleftrightarrow>
     (map_of qs ''pg'' = None \<and> n = 2
      \<or> (\<exists>v rest x. map_of qs ''pg'' = Some (v # rest) \<and> py_int L v = Inr x
                    \<and> 1 \<le> x \<and> x \<le> 1000 \<and> n = x + 1))"
  by (auto simp: next_pg_def split: sum.splits option.splits list.splits if_splits)

lemma next_url_of_Some:
  "next_url_of L parsed qs n = Some u \<longleftrightarrow>
     (\<exists>d new_query. first_values (AList.update ''pg'' [py_str n] qs) = Inr d
        \<and> map_of d ''pg'' = Some (py_str n)
        \<and> urlencode L d = Inr new_query
        \<and> urlunparse L \<lparr>scheme = scheme parsed, netloc = netloc parsed, path = path parsed,
                          params = [], query = new_query, fragment = []\<rparr> = Inr u)"
  by (auto simp: next_url_of_def first_values_pg split: sum.splits)

lemma compute_next_list_url_Some:
  "compute_next_list_url L url = Some u \<longleftrightarrow>
     (\<exists>parsed qs n. list_query L url = Some (parsed, qs) \<and> next_pg L qs = Some n
                    \<and> next_url_of L parsed qs n = Some u)"
  by (auto simp: compute_next_list_url_def split: option.splits)

lemma next_pg_range: "next_pg L qs = Some n \<Longrightarrow> 2 \<le> n \<and> n \<le> 1001"
  by (auto simp: next_pg_Some)

lemma written_pg_range: "written_pg L u = Some n \<Longrightarrow> 2 \<le> n \<and> n \<le> 1001"
  by (auto simp: written_pg_def next_pg_range split: option.splits)

lemma written_pg_None: "written_pg L u = None \<Longrightarrow> compute_next_list_url L u = None"
  by (auto simp: written_pg_def compute_next_list_url_def split: option.splits)

lemma follow_Cons: "\<exists>rest. follow L n u = u # rest"
  by (cases n) simp_all

lemma follow_stops: "compute_next_list_url L u = None \<Longrightarrow> follow L n u = [u]"
  by (cases n) simp_all

lemma follow_bound:
  "written_pg L u = Some m \<Longrightarrow> reads_back L (follow L n u) \<Longrightarrow>
   length (follow L n u) \<le> nat (1001 - m) + 2"
proof (induction n arbitrary: u m)
  case 0
  then show ?case by simp
next
  case (Suc n)
  have m: "2 \<le> m \<and> m \<le> 1001" using Suc.prems(1) by (rule written_pg_range)
  show ?case
  proof (cases "compute_next_list_url L u")
    case None
    then show ?thesis by simp
  next
    case (Some u')
    obtain rest where f: "follow L n u' = u' # rest" using follow_Cons by blast
    have unfold: "follow L (Suc n) u = u # u' # rest" using Some f by simp
    have rb: "reads_back L (u # u' # rest)" using Suc.prems(2) unfold by simp
    show ?thesis
    proof (cases "written_pg L u'")
      case None
      then have "follow L n u' = [u']" by (intro follow_stops written_pg_None)
      then show ?thesis using Some by simp
    next
      case (Some m')
      have m': "m' = m + 1" using rb Some Suc.prems(1) by simp
      have "m' \<le> 1001" using Some written_pg_range by blast
      moreover have "length (follow L n u') \<le> nat (1001 - m') + 2"
        using Some rb f by (intro Suc.IH) simp_all
      ultimately show ?thesis using unfold f m' by simp
    qed
  qed
qed

text \<open>
  C9. For every URL string and every behaviour of the URL library:
  \<^verbatim>\<open>compute_next_list_url\<close> returns a successor exactly when the URL parses, its host
  is the host of \<^verbatim>\<open>BASE_LIST_URL\<close>, its path is \<^verbatim>\<open>/jobs/\<close>, the first \<^verbatim>\<open>pr\<close> of its
  query is \<^verbatim>\<open>41\<close>, and either \<^verbatim>\<open>pg\<close> is absent (the successor's query then carries
  \<^verbatim>\<open>pg=2\<close>) or the first \<^verbatim>\<open>pg\<close> reads as an integer \<open>x\<close> with \<open>1 \<le> x \<le> 1000\<close> (then
  \<^verbatim>\<open>pg=x+1\<close>), and the library builds the successor from the unchanged scheme, host and
  path and that query; in every other case it returns \<open>None\<close>. Consequently, as long
  as the library reads back from each successor the page number that was written into
  it, following the function from any start visits at most 1001 URLs (at most 1000
  advances), however much fuel is given.
\<close>

theorem compute_next_list_url_bounded:
  "(compute_next_list_url L url = Some u \<longleftrightarrow>
      (\<exists>parsed base qs n d new_query.
          urlparse L url = Inr parsed \<and> urlparse L BASE_LIST_URL = Inr base
        \<and> netloc parsed = netloc base \<and> path parsed = ''/jobs/''
        \<and> parse_qs L (query parsed) = Inr qs
        \<and> (\<exists>rest. map_of qs ''pr'' = Some (''41'' # rest))
        \<and> (map_of qs ''pg'' = None \<and> n = 2
           \<or> (\<exists>v rest x. map_of qs ''pg'' = Some (v # rest) \<and> py_int L v = Inr x
                         \<and> 1 \<le> x \<and> x \<le> 1000 \<and> n = x + 1))
        \<and> first_values (AList.update ''pg'' [py_str n] qs) = Inr d
        \<and> map_of d ''pg'' = Some (py_str n)
        \<and> urlencode L d = Inr new_query
        \<and> urlunparse L \<lparr>scheme = scheme parsed, netloc = netloc parsed, path = path parsed,
                          params = [], query = new_query, fragment = []\<rparr> = Inr u))
   \<and> (reads_back L (follow L fuel url) \<longrightarrow> length (follow L fuel url) \<le> 1001)"
proof
  show "compute_next_list_url L url = Some u \<longleftrightarrow>
      (\<exists>parsed base qs n d new_query.
          urlparse L url = Inr parsed \<and> urlparse L BASE_LIST_URL = Inr base
        \<and> netloc parsed = netloc base \<and> path parsed = ''/jobs/''
        \<and> parse_qs L (query parsed) = Inr qs
        \<and> (\<exists>rest. map_of qs ''pr'' = Some (''41'' # rest))
        \<and> (map_of qs ''pg'' = None \<and> n = 2
           \<or> (\<exists>v rest x. map_of qs ''pg'' = Some (v # rest) \<and> py_int L v = Inr x
                         \<and> 1 \<le> x \<and> x \<le> 1000 \<and> n = x + 1))
        \<and> first_values (AList.update ''pg'' [py_str n] qs) = Inr d
        \<and> map_of d ''pg'' = Some (py_str n)
        \<and> urlencode L d = Inr new_query
        \<and> urlunparse L \<lparr>scheme = scheme parsed, netloc = netloc parsed, path = path parsed,
                          params = [], query = new_query, fragment = []\<rparr> = Inr u)"
    unfolding compute_next_list_url_Some list_query_Some next_pg_Some next_url_of_Some
    by blast
next
  show "reads_back L (follow L fuel url) \<longrightarrow> length (follow L fuel url) \<le> 1001"
  proof
    assume rb: "reads_back L (follow L fuel url)"
    show "length (follow L fuel url) \<le> 1001"
    proof (cases "written_pg L url")
      case None
      then have "follow L fuel url = [url]" by (intro follow_stops written_pg_None)
      then show ?thesis by simp
    next
      case (Some m)
      then have "2 \<le> m" using written_pg_range by blast
      then show ?thesis using follow_bound [OF Some rb] by simp
    qed
  qed
qed

text \<open>
  From page 999 the function advances to 1000 and 1001 and then stops.
\<close>

theorem compute_next_list_url_bounded_witness:
  "compute_next_list_url plain_urllib ''https://jobs.iai.co.il/jobs/?pr=41&pg=1000''
     = Some ''https://jobs.iai.co.il/jobs/?pr=41&pg=1001''
   \<and> compute_next_list_url plain_urllib ''https://jobs.iai.co.il/jobs/?pr=41&pg=1001'' = None
   \<and> follow plain_urllib (Suc (Suc (Suc 0))) ''https://jobs.iai.co.il/jobs/?pr=41&pg=999''
       = [''https://jobs.iai.co.il/jobs/?pr=41&pg=999'',
          ''https://jobs.iai.co.il/jobs/?pr=41&pg=1000'',
          ''https://jobs.iai.co.il/jobs/?pr=41&pg=1001'']
   \<and> reads_back plain_urllib
         (follow plain_urllib (Suc (Suc (Suc 0))) ''https://jobs.iai.co.il/jobs/?pr=41&pg=999'')"
  using compute_next_list_url_bounded
          [of plain_urllib "''https://jobs.iai.co.il/jobs/?pr=41&pg=1000''"
              "''https://jobs.iai.co.il/jobs/?pr=41&pg=1001''" "Suc (Suc (Suc 0))"]
        compute_next_list_url_bounded
          [of plain_urllib "''https://jobs.iai.co.il/jobs/?pr=41&pg=999''"
              "''https://jobs.iai.co.il/jobs/?pr=41&pg=1000''" "Suc (Suc (Suc 0))"]
  by (simp add: compute_next_list_url_def list_query_def next_pg_def next_url_of_def plain_defs
        written_pg_def py_str_def digits.simps)

subsection \<open>The pagination loop of the IAI bot\<close>

lemma goto_list_url_Inr:
  "goto_list_url S k url b = Inr b' \<Longrightarrow>
   gets b' = gets b @ [url] \<and> set (visited_urls b) \<subseteq> set (visited_urls b')
   \<and> start_page b' = start_page b \<and> max_pages b' = max_pages b"
  by (auto simp: goto_list_url_def split: sum.splits)

lemma run_loop_inv:
  "run_loop S L fuel k b = (states, why) \<Longrightarrow>
   (\<exists>rest. states = b # rest) \<and> steps_ok S L k states
   \<and> (why = Already_visited \<longrightarrow>
        (\<exists>url_now u. after_jobs S (k + length states - 1) = Inr url_now
           \<and> compute_next_list_url L url_now = Some u
           \<and> u \<in> set (visited_urls (last states))))"
proof (induction fuel arbitrary: k b states why)
  case 0
  then show ?case by auto
next
  case (Suc fuel)
  show ?case
  proof (cases "after_jobs S k")
    case (Inl e)
    then show ?thesis using Suc.prems by auto
  next
    case (Inr url_now)
    show ?thesis
    proof (cases "compute_next_list_url L url_now")
      case None
      then show ?thesis using Suc.prems Inr by auto
    next
      case (Some u)
      show ?thesis
      proof (cases "u = []")
        case True
        then show ?thesis using Suc.prems Inr Some by auto
      next
      case named: False
      show ?thesis
      proof (cases "max_pages b > 0 \<and> pages_done b \<ge> max_pages b + (start_page b - 1)")
        case True
        then show ?thesis using Suc.prems Inr Some named by auto
      next
        case nolimit: False
        show ?thesis
        proof (cases "u \<in> set (visited_urls b)")
          case True
          then show ?thesis using Suc.prems Inr Some named nolimit by auto
        next
          case fresh_url: False
          show ?thesis
          proof (cases "goto_list_url S (Suc k) u (b\<lparr>last_list_url := Some u\<rparr>)")
            case (Inl e)
            then show ?thesis using Suc.prems Inr Some named nolimit fresh_url by auto
          next
            case go: (Inr b')
            obtain states' why' where rec: "run_loop S L fuel (Suc k) b' = (states', why')"
              by (cases "run_loop S L fuel (Suc k) b'")
            have res: "states = b # states'" "why = why'"
              using Suc.prems Inr Some named nolimit fresh_url go rec by auto
            have IH: "(\<exists>rest. states' = b' # rest) \<and> steps_ok S L (Suc k) states'
                \<and> (why' = Already_visited \<longrightarrow>
                    (\<exists>url_now u. after_jobs S (Suc k + length states' - 1) = Inr url_now
                       \<and> compute_next_list_url L url_now = Some u
                       \<and> u \<in> set (visited_urls (last states'))))"
              by (rule Suc.IH [OF rec])
            then obtain rest where st: "states' = b' # rest" by blast
            have step: "step_ok S L k b b'"
              using goto_list_url_Inr [OF go] Inr Some fresh_url by (simp add: step_ok_def)
            show ?thesis using res st IH step by auto
          qed
        qed
      qed
      qed
    qed
  qed
qed

lemma steps_ok_nth:
  "steps_ok S L k states \<Longrightarrow> Suc i < length states \<Longrightarrow>
   step_ok S L (k + i) (states ! i) (states ! Suc i)"
proof (induction S L k states arbitrary: i rule: steps_ok.induct)
  case (1 S L k b b' rest)
  show ?case
  proof (cases i)
    case 0
    then show ?thesis using 1 by simp
  next
    case (Suc m)
    then show ?thesis using 1 by simp
  qed
qed simp_all

lemma chain_subset:
  "(\<And>i. Suc i < length xs \<Longrightarrow> f (xs ! i) \<subseteq> f (xs ! Suc i)) \<Longrightarrow>
   i \<le> j \<Longrightarrow> j < length xs \<Longrightarrow> f (xs ! i) \<subseteq> (f (xs ! j) :: 'b set)"
proof (induction j)
  case 0
  then show ?case by simp
next
  case (Suc j)
  show ?case
  proof (cases "i = Suc j")
    case True
    then show ?thesis by simp
  next
    case False
    then have "f (xs ! i) \<subseteq> f (xs ! j)" using Suc by simp
    moreover have "f (xs ! j) \<subseteq> f (xs ! Suc j)" using Suc.prems by simp
    ultimately show ?thesis by blast
  qed
qed

lemma run_inv:
  assumes "run S L fuel sp mp = (states, why)"
  shows "states \<noteq> [] \<and> steps_ok S L 0 states
     \<and> (why = Already_visited \<longrightarrow>
          (\<exists>url_now u. after_jobs S (length states - 1) = Inr url_now
             \<and> compute_next_list_url L url_now = Some u
             \<and> u \<in> set (visited_urls (last states))))"
proof -
  let ?b0 = "\<lparr>start_page = max 1 sp, max_pages = max 0 mp,
                last_list_url = None, visited_urls = [], gets = []\<rparr>"
  let ?url = "if start_page ?b0 \<le> 1 then BASE_LIST_URL
              else BASE_LIST_URL @ ''&pg='' @ py_str (start_page ?b0)"
  show ?thesis
  proof (cases "goto_list_url S 0 ?url ?b0")
    case (Inl e)
    then have "states = [?b0]" "why = Raised e" using assms by (simp_all add: run_def Let_def)
    then show ?thesis by simp
  next
    case (Inr b)
    then have "run_loop S L fuel 0 b = (states, why)" using assms by (simp add: run_def Let_def)
    from run_loop_inv [OF this] show ?thesis by auto
  qed
qed

text \<open>
  C8. In every run of the IAI bot, for every site, URL library, start page and page
  limit, and however long the run is followed: along the states at the start of the
  iterations the set \<^verbatim>\<open>visited_urls\<close> only grows; every \<^verbatim>\<open>driver.get\<close> of the loop is
  for the URL computed from the current one, and that URL was looked up in the set and
  was not in it; whenever the computed URL is in the set, no navigation follows and the
  run ends there; and a run that reports \<open>Already_visited\<close> stopped for that reason.
  (The set holds the URLs the tab showed after loading, line 175-176.)
\<close>

theorem visited_urls_only_grow:
  assumes "run S L fuel start_page_arg max_pages_arg = (states, why)"
  shows "(\<forall>i j. i \<le> j \<and> j < length states
            \<longrightarrow> set (visited_urls (states ! i)) \<subseteq> set (visited_urls (states ! j)))
     \<and> (\<forall>i. Suc i < length states \<longrightarrow>
            (\<exists>url_now u. after_jobs S i = Inr url_now
               \<and> compute_next_list_url L url_now = Some u
               \<and> u \<notin> set (visited_urls (states ! i))
               \<and> gets (states ! Suc i) = gets (states ! i) @ [u]))
     \<and> (\<forall>i url_now u. i < length states \<and> after_jobs S i = Inr url_now
            \<and> compute_next_list_url L url_now = Some u
            \<and> u \<in> set (visited_urls (states ! i))
            \<longrightarrow> Suc i = length states)
     \<and> (why = Already_visited \<longrightarrow>
          (\<exists>url_now u. after_jobs S (length states - 1) = Inr url_now
             \<and> compute_next_list_url L url_now = Some u
             \<and> u \<in> set (visited_urls (last states))))"
proof -
  note inv = run_inv [OF assms]
  have step: "step_ok S L i (states ! i) (states ! Suc i)" if "Suc i < length states" for i
    using steps_ok_nth [of S L 0 states i] inv that by simp
  have sub: "set (visited_urls (states ! i)) \<subseteq> set (visited_urls (states ! Suc i))"
    if "Suc i < length states" for i
    using step [OF that] by (auto simp: step_ok_def split: sum.splits option.splits)
  have mono: "\<forall>i j. i \<le> j \<and> j < length states
            \<longrightarrow> set (visited_urls (states ! i)) \<subseteq> set (visited_urls (states ! j))"
    using chain_subset [of states "\<lambda>b. set (visited_urls b)"] sub by blast
  have nav: "\<forall>i. Suc i < length states \<longrightarrow>
            (\<exists>url_now u. after_jobs S i = Inr url_now
               \<and> compute_next_list_url L url_now = Some u
               \<and> u \<notin> set (visited_urls (states ! i))
               \<and> gets (states ! Suc i) = gets (states ! i) @ [u])"
  proof (intro allI impI)
    fix i assume "Suc i < length states"
    from step [OF this]
    show "\<exists>url_now u. after_jobs S i = Inr url_now
               \<and> compute_next_list_url L url_now = Some u
               \<and> u \<notin> set (visited_urls (states ! i))
               \<and> gets (states ! Suc i) = gets (states ! i) @ [u]"
      by (auto simp: step_ok_def split: sum.splits option.splits)
  qed
  have stop: "\<forall>i url_now u. i < length states \<and> after_jobs S i = Inr url_now
            \<and> compute_next_list_url L url_now = Some u
            \<and> u \<in> set (visited_urls (states ! i))
            \<longrightarrow> Suc i = length states"
  proof (intro allI impI)
    fix i url_now u
    assume a: "i < length states \<and> after_jobs S i = Inr url_now
            \<and> compute_next_list_url L url_now = Some u
            \<and> u \<in> set (visited_urls (states ! i))"
    show "Suc i = length states"
    proof (rule ccontr)
      assume "Suc i \<noteq> length states"
      then have "Suc i < length states" using a by simp
      then show False using nav a by auto
    qed
  qed
  show ?thesis using mono nav stop inv by blast
qed

text \<open>
  A run of two pages: the second iteration computes the URL of page 2 again, finds it
  in the set and stops.
\<close>

theorem visited_urls_only_grow_witness:
  "run stays_on_first_page plain_urllib (Suc (Suc (Suc 0))) 1 0
     = ([\<lparr>start_page = 1, max_pages = 0,
           last_list_url = Some ''https://jobs.iai.co.il/jobs/?pr=41'',
           visited_urls = [''https://jobs.iai.co.il/jobs/?pr=41''],
           gets = [''https://jobs.iai.co.il/jobs/?pr=41'']\<rparr>,
         \<lparr>start_page = 1, max_pages = 0,
           last_list_url = Some ''https://jobs.iai.co.il/jobs/?pr=41&pg=2'',
           visited_urls = [''https://jobs.iai.co.il/jobs/?pr=41&pg=2'',
                           ''https://jobs.iai.co.il/jobs/?pr=41''],
           gets = [''https://jobs.iai.co.il/jobs/?pr=41'',
                   ''https://jobs.iai.co.il/jobs/?pr=41&pg=2'']\<rparr>],
        Already_visited)"
proof -
  have r: "run stays_on_first_page plain_urllib (Suc (Suc (Suc 0))) 1 0
     = ([\<lparr>start_page = 1, max_pages = 0,
           last_list_url = Some ''https://jobs.iai.co.il/jobs/?pr=41'',
           visited_urls = [''https://jobs.iai.co.il/jobs/?pr=41''],
           gets = [''https://jobs.iai.co.il/jobs/?pr=41'']\<rparr>,
         \<lparr>start_page = 1, max_pages = 0,
           last_list_url = Some ''https://jobs.iai.co.il/jobs/?pr=41&pg=2'',
           visited_urls = [''https://jobs.iai.co.il/jobs/?pr=41&pg=2'',
                           ''https://jobs.iai.co.il/jobs/?pr=41''],
           gets = [''https://jobs.iai.co.il/jobs/?pr=41'',
                   ''https://jobs.iai.co.il/jobs/?pr=41&pg=2'']\<rparr>],
        Already_visited)"
    by code_simp
  show ?thesis using visited_urls_only_grow [OF r] by - (rule r)
qed

text \<open>
  What the set does not prevent: on a site that redirects page 2 to the first page the
  set never receives the URL of page 2, and the bot requests it again in every
  iteration.
\<close>

theorem redirect_repeats_request:
  "map gets (fst (run redirects_to_first_page plain_urllib (Suc (Suc 0)) 1 0))
     = [[''https://jobs.iai.co.il/jobs/?pr=41''],
        [''https://jobs.iai.co.il/jobs/?pr=41'', ''https://jobs.iai.co.il/jobs/?pr=41&pg=2''],
        [''https://jobs.iai.co.il/jobs/?pr=41'', ''https://jobs.iai.co.il/jobs/?pr=41&pg=2'',
         ''https://jobs.iai.co.il/jobs/?pr=41&pg=2'']]
   \<and> map visited_urls (fst (run redirects_to_first_page plain_urllib (Suc (Suc 0)) 1 0))
     = [[''https://jobs.iai.co.il/jobs/?pr=41''], [''https://jobs.iai.co.il/jobs/?pr=41''],
        [''https://jobs.iai.co.il/jobs/?pr=41'']]
   \<and> snd (run redirects_to_first_page plain_urllib (Suc (Suc 0)) 1 0) = Still_running"
  by code_simp

end
